theory Spec2Isabelle
  imports Main
begin

section \<open>The MITM engine of gomitmproxy (mitm.go)\<close>

text \<open>
  The handlers of \<^verbatim>\<open>mitm.go\<close> talk to sockets, files, the clock and Go's standard
  library. Each handler is embedded as a function from the outcomes of those external
  operations (an environment record) to the list of effects the handler performs, in
  program order, and the way it ends. Every \<^verbatim>\<open>return\<close> and every panic of the
  source is a branch of the model; a deferred call is the last effect of the path that
  registered it.
\<close>

subsection \<open>Data\<close>

type_synonym bytes = string
type_synonym err = string

text \<open>\<^verbatim>\<open>io.EOF\<close>, the only error value the source compares against.\<close>

definition io_EOF :: err where
  "io_EOF = ''EOF''"

definition CRLF :: string where
  "CRLF = [CHR 0x0D, CHR 0x0A]"

text \<open>The fields of \<^verbatim>\<open>*http.Request\<close> that the handlers read or change.\<close>

record request =
  reqMethod :: string
  reqHost :: string
  reqRequestURI :: string
  reqHeader :: "(string \<times> string list) list"
  reqURLScheme :: string
  reqURLHost :: string

text \<open>The fields of \<^verbatim>\<open>*http.Response\<close> the handlers read; \<open>respWire\<close> is its wire form.\<close>

record response =
  respStatusCode :: nat
  respStatus :: string
  respWire :: bytes

text \<open>\<^verbatim>\<open>http.Header\<close>: \<open>Del\<close>, \<open>Set\<close> and indexing by key.\<close>

definition header_Del :: "string \<Rightarrow> (string \<times> string list) list \<Rightarrow> (string \<times> string list) list" where
  "header_Del k h = filter (\<lambda>kv. fst kv \<noteq> k) h"

definition header_Set :: "string \<Rightarrow> string \<Rightarrow> (string \<times> string list) list \<Rightarrow> (string \<times> string list) list" where
  "header_Set k v h = header_Del k h @ [(k, [v])]"

definition header_values :: "(string \<times> string list) list \<Rightarrow> string \<Rightarrow> string list" where
  "header_values h k = concat (map snd (filter (\<lambda>kv. fst kv = k) h))"

text \<open>\<^verbatim>\<open>strings.Join\<close>, \<^verbatim>\<open>strings.Contains\<close> and \<^verbatim>\<open>strings.Split(addr, ":")[0]\<close>.\<close>

fun strings_Join :: "string list \<Rightarrow> string \<Rightarrow> string" where
  "strings_Join [] sep = []"
| "strings_Join [x] sep = x"
| "strings_Join (x # y # ys) sep = x @ sep @ strings_Join (y # ys) sep"

fun strings_Contains :: "string \<Rightarrow> string \<Rightarrow> bool" where
  "strings_Contains [] sub = (sub = [])"
| "strings_Contains (c # cs) sub = (take (length sub) (c # cs) = sub \<or> strings_Contains cs sub)"

definition split_first :: "string \<Rightarrow> string" where
  "split_first addr = takeWhile (\<lambda>c. c \<noteq> CHR '':'') addr"

text \<open>
  \<^verbatim>\<open>regexp.MatchString(":[0-9]+$", host)\<close>: the host ends with a colon followed by one
  or more decimal digits.
\<close>

definition is_digit :: "char \<Rightarrow> bool" where
  "is_digit c = (c \<in> set ''0123456789'')"

definition has_port :: "string \<Rightarrow> bool" where
  "has_port host =
     (let r = rev host; ds = takeWhile is_digit r; rest = dropWhile is_digit r
      in ds \<noteq> [] \<and> (case rest of [] \<Rightarrow> False | c # _ \<Rightarrow> c = CHR '':''))"

subsection \<open>Effects and outcomes\<close>

datatype event =
    GoDumpRequestOut
  | LogLine string
  | Hijack
  | ConnInClose
  | DialTCP string
  | DialTLS string
  | ReqWrite request
  | ReadResponse
  | DumpResponse
  | ConnInWrite bytes
  | CallFilter
  | HttpPost string string
  | RspBodyClose
  | RecvCh
  | GoHttpDump
  | CallFakeCert string
  | WriteHeader nat
  | RespWrite string
  | TLSServer
  | GoServe
  | GoMyCopy
  | RecvFirstCopy
  | PanicEv

text \<open>
  A handler returns, or panics in its own goroutine (deferred calls still run and the
  panic unwinds into the caller), or the program dies because a goroutine the handler
  started panics with nothing to recover it.
\<close>

datatype outcome = Returned | Panicked | Crashed

subsection \<open>The response observer: \<^verbatim>\<open>filter\<close> (lines 213--288)\<close>

text \<open>
  The outcomes of the operations \<^verbatim>\<open>filter\<close> performs: \<^verbatim>\<open>json.Marshal\<close>,
  \<^verbatim>\<open>http.NewRequest\<close>, \<^verbatim>\<open>hw.client.Do\<close>, \<^verbatim>\<open>ioutil.ReadAll\<close> and
  \<^verbatim>\<open>json.Unmarshal\<close> (the decoded \<open>State\<close>). \<^verbatim>\<open>Do\<close> returns a response
  and no error, or an error, with which a response may come (\<open>DoErr e True\<close>) or not.
\<close>

datatype do_outcome = DoOk | DoErr err bool

record observer_env =
  marshalErr :: "err option"
  newRequestErr :: "err option"
  doRes :: do_outcome
  readAllErr :: "err option"
  unmarshalRes :: "err + int"

definition collector_url :: string where
  "collector_url = ''http://tym.taoyumin.cn/index.php?r=search/setdata''"

definition filter_hw :: "observer_env \<Rightarrow> response \<Rightarrow> request \<Rightarrow> event list" where
  "filter_hw oe resp req =
     CallFilter #
     (if strings_Contains (reqRequestURI req) ''pub.alimama.com''
         \<or> strings_Contains (reqRequestURI req) ''afpeng.alimama.com''
      then
        (case marshalErr oe of
           Some e \<Rightarrow> [LogLine ''Marshal error:'']
         | None \<Rightarrow>
            (case newRequestErr oe of
               Some e \<Rightarrow> [LogLine ''new http request error:'']
             | None \<Rightarrow>
                [HttpPost collector_url (strings_Join (header_values (reqHeader req) ''Cookie'') '';'')] @
                (case doRes oe of
                   DoErr e with_rsp \<Rightarrow>
                     [LogLine ''do http request error:''] @ (if with_rsp then [RspBodyClose] else [])
                 | DoOk \<Rightarrow>
                    (case readAllErr oe of
                       Some e \<Rightarrow> [LogLine ''response read body error:'']
                     | None \<Rightarrow>
                        (case unmarshalRes oe of
                           Inl e \<Rightarrow> [LogLine ''response body:'', LogLine ''Unmarshal http response error:'']
                         | Inr st \<Rightarrow>
                            (if st = 1000 then [LogLine ''set cookies success. cookie: '']
                             else [LogLine ''error msg:''])))
                    @ [RspBodyClose])))
      else [])"

subsection \<open>The request relay: \<^verbatim>\<open>DumpHTTPAndHTTPs\<close> (lines 104--198)\<close>

text \<open>
  The outcomes of the external operations of the relay. \<open>raceErr116\<close> is what the
  unsynchronised read of \<^verbatim>\<open>err\<close> at line 116 sees of the dump goroutine's write;
  \<open>readRes\<close> is the pair \<^verbatim>\<open>http.ReadResponse\<close> returns; \<open>connWriteErr\<close> is the
  result of \<^verbatim>\<open>connIn.Write\<close> at line 184 when it fails, the number of bytes written
  before the error and the error; \<open>monitor\<close> is \<^verbatim>\<open>*hw.MyConfig.Monitor\<close>.
\<close>

record relay_env =
  raceErr116 :: "err option"
  hijackErr :: "err option"
  dialErr :: "err option"
  reqWriteErr :: "err option"
  readRes :: "response option \<times> err option"
  dumpRespErr :: "err option"
  connWriteErr :: "(nat \<times> err) option"
  monitor :: bool
  observer :: observer_env

text \<open>Lines 128--133 and 152--154: the address dialled.\<close>

definition dial_host :: "bool \<Rightarrow> string \<Rightarrow> string" where
  "dial_host https host =
     (if has_port host then host else if https then host @ '':443'' else host @ '':80'')"

text \<open>Lines 147--149 and 168--170.\<close>

definition read_log :: "relay_env \<Rightarrow> event list" where
  "read_log env =
     (case snd (readRes env) of
        None \<Rightarrow> []
      | Some e \<Rightarrow> if e \<noteq> io_EOF then [LogLine ''read response error:''] else [])"

text \<open>
  Lines 174--197. \<^verbatim>\<open>httputil.DumpResponse\<close> returns a nil slice with its error, so
  the write that follows an error carries no bytes.
\<close>

definition relay_tail :: "relay_env \<Rightarrow> request \<Rightarrow> event list \<times> outcome" where
  "relay_tail env req =
     (case fst (readRes env) of
        None \<Rightarrow> ([LogLine ''respOut is nil''], Returned)
      | Some respOut \<Rightarrow>
          ([DumpResponse] @
           (case dumpRespErr env of Some e \<Rightarrow> [LogLine ''respDump error:''] | None \<Rightarrow> []) @
           [ConnInWrite (case dumpRespErr env of Some e \<Rightarrow> [] | None \<Rightarrow> respWire respOut)] @
           (case connWriteErr env of Some e \<Rightarrow> [LogLine ''connIn write error:''] | None \<Rightarrow> []) @
           filter_hw (observer env) respOut req @
           (if monitor env then [RecvCh, GoHttpDump] else [RecvCh]),
           Returned))"

text \<open>
  Lines 125--172, after a successful hijack. \<^verbatim>\<open>logger.Panicln\<close> (line 159) prints
  and then panics, so the \<^verbatim>\<open>return\<close> of line 160 is never reached.
\<close>

definition relay_body :: "relay_env \<Rightarrow> bool \<Rightarrow> request \<Rightarrow> event list \<times> outcome" where
  "relay_body env https req =
     (let host = dial_host https (reqHost req) in
      if \<not> https then
        (case dialErr env of
           Some e \<Rightarrow> ([DialTCP host, LogLine ''dial to''], Returned)
         | None \<Rightarrow>
            (case reqWriteErr env of
               Some e \<Rightarrow> ([DialTCP host, ReqWrite req, LogLine ''send to server error''], Returned)
             | None \<Rightarrow>
                (let (t, out) = relay_tail env req
                 in ([DialTCP host, ReqWrite req, ReadResponse] @ read_log env @ t, out))))
      else
        (case dialErr env of
           Some e \<Rightarrow> ([DialTLS host, LogLine ''tls dial to'', PanicEv], Panicked)
         | None \<Rightarrow>
            (case reqWriteErr env of
               Some e \<Rightarrow> ([DialTLS host, ReqWrite req, LogLine ''send to server error''], Returned)
             | None \<Rightarrow>
                (let (t, out) = relay_tail env req
                 in ([DialTLS host, ReqWrite req, ReadResponse] @ read_log env @ t, out)))))"

text \<open>Lines 110--119: the dump goroutine is started, then the socket is hijacked.\<close>

definition relay_prologue :: "relay_env \<Rightarrow> event list" where
  "relay_prologue env =
     [GoDumpRequestOut] @
     (case raceErr116 env of Some e \<Rightarrow> [LogLine ''DumpRequest error ''] | None \<Rightarrow> []) @
     [Hijack]"

text \<open>
  Lines 104--123. When \<^verbatim>\<open>Hijack\<close> fails it returns a nil connection; line 121 logs
  and execution goes on to \<^verbatim>\<open>defer connIn.Close()\<close>, where taking the method of
  the nil interface value panics. After a successful hijack the deferred
  \<^verbatim>\<open>connIn.Close()\<close> ends every path, a panicking one included.
\<close>

definition DumpHTTPAndHTTPs :: "relay_env \<Rightarrow> bool \<Rightarrow> request \<Rightarrow> event list \<times> outcome" where
  "DumpHTTPAndHTTPs env https req0 =
     (let req = req0\<lparr>reqHeader :=
                  header_Set ''Connection'' ''Keep-Alive''
                    (header_Del ''Proxy-Connection'' (reqHeader req0))\<rparr>;
          t0 = relay_prologue env
      in case hijackErr env of
           Some e \<Rightarrow> (t0 @ [LogLine ''hijack error:'', PanicEv], Panicked)
         | None \<Rightarrow>
            (let (t, out) = relay_body env https req in (t0 @ t @ [ConnInClose], out)))"

text \<open>The bytes the handler hands to the client socket, in order.\<close>

fun client_bytes :: "event list \<Rightarrow> bytes" where
  "client_bytes [] = []"
| "client_bytes (ConnInWrite b # es) = b @ client_bytes es"
| "client_bytes (e # es) = client_bytes es"

fun is_ConnInWrite :: "event \<Rightarrow> bool" where
  "is_ConnInWrite (ConnInWrite b) = True"
| "is_ConnInWrite e = False"

subsection \<open>HTTPS interception: \<^verbatim>\<open>InterceptHTTPs\<close> (lines 306--343)\<close>

text \<open>
  \<open>certErr\<close> is the error of \<^verbatim>\<open>hw.FakeCertForName(host)\<close> (none on success),
  \<open>iHijackErr\<close> that of \<^verbatim>\<open>Hijack\<close>; both messages of lines 312 and 320 end with
  the text of the error. The result of the final write is dropped by the source.
\<close>

record intercept_env =
  certErr :: "err option"
  iHijackErr :: "err option"

definition intercept_ack :: bytes where
  "intercept_ack = ''HTTP/1.1 200 OK'' @ CRLF @ CRLF"

text \<open>\<^verbatim>\<open>respBadGateway\<close> (lines 401--405).\<close>

definition respBadGateway :: "string \<Rightarrow> event list" where
  "respBadGateway msg = [LogLine msg, WriteHeader 502, RespWrite msg]"

definition InterceptHTTPs :: "intercept_env \<Rightarrow> request \<Rightarrow> event list \<times> outcome" where
  "InterceptHTTPs env req =
     (let host = split_first (reqHost req) in
      case certErr env of
        Some e \<Rightarrow>
          ([CallFakeCert host] @
           respBadGateway
             (''Could not get mitm cert for name: '' @ host @ [CHR 0x0A] @ ''error: '' @ e),
           Returned)
      | None \<Rightarrow>
         (case iHijackErr env of
            Some e \<Rightarrow>
              ([CallFakeCert host, Hijack] @
               respBadGateway (''Unable to access underlying connection from client: '' @ e),
               Returned)
          | None \<Rightarrow>
              ([CallFakeCert host, Hijack, TLSServer, GoServe, ConnInWrite intercept_ack],
               Returned)))"

text \<open>
  The handler given to \<^verbatim>\<open>http.Serve\<close> at lines 328--333; \<open>https\<close> is the value of
  the shared field \<^verbatim>\<open>hw.https\<close> when the relay reads it.
\<close>

definition inner_handler :: "relay_env \<Rightarrow> bool \<Rightarrow> request \<Rightarrow> event list \<times> outcome" where
  "inner_handler env https req2 =
     DumpHTTPAndHTTPs env https (req2\<lparr>reqURLScheme := ''https'', reqURLHost := reqHost req2\<rparr>)"

subsection \<open>Upstream-proxy forwarding: \<^verbatim>\<open>connectProxyServer\<close>, \<^verbatim>\<open>Transport\<close>, \<^verbatim>\<open>Forward\<close>\<close>

text \<open>A call either returns a value or panics.\<close>

datatype 'a call_result = Ret 'a | Pan

record forward_env =
  fHijackErr :: "err option"
  fDialErr :: "err option"
  preambleWriteErr :: "err option"
  preambleReadRes :: "response option \<times> err option"
  fConnWriteErr :: "err option"
  fReqWriteErr :: "err option"
  transportErr :: "err option"
  version :: string

definition connect_preamble :: "string \<Rightarrow> request" where
  "connect_preamble addr =
     \<lparr>reqMethod = ''CONNECT'', reqHost = addr, reqRequestURI = [],
      reqHeader = [(''Proxy-Connection'', [''keep-alive''])],
      reqURLScheme = [], reqURLHost = addr\<rparr>"

text \<open>
  Lines 428--452. \<open>conn_ok\<close> is false for a nil connection: writing the request to it
  panics. A nil response without an error (which \<^verbatim>\<open>http.ReadResponse\<close> does not
  produce) would panic at line 448.
\<close>

definition connectProxyServer ::
  "forward_env \<Rightarrow> bool \<Rightarrow> string \<Rightarrow> event list \<times> err option call_result" where
  "connectProxyServer env conn_ok addr =
     (if \<not> conn_ok then ([PanicEv], Pan)
      else
        (case preambleWriteErr env of
           Some e \<Rightarrow> ([ReqWrite (connect_preamble addr)], Ret (Some e))
         | None \<Rightarrow>
            (case snd (preambleReadRes env) of
               Some e \<Rightarrow> ([ReqWrite (connect_preamble addr), ReadResponse], Ret (Some e))
             | None \<Rightarrow>
                (case fst (preambleReadRes env) of
                   None \<Rightarrow> ([ReqWrite (connect_preamble addr), ReadResponse, PanicEv], Pan)
                 | Some resp \<Rightarrow>
                    ([ReqWrite (connect_preamble addr), ReadResponse],
                     if respStatusCode resp \<noteq> 200 then Ret (Some (respStatus resp))
                     else Ret None)))))"

text \<open>
  Lines 408--426: two copy goroutines, and the first result wins. With a nil connection
  a copy goroutine panics, and nothing recovers a panic there.
\<close>

definition Transport :: "forward_env \<Rightarrow> bool \<Rightarrow> bool \<Rightarrow> event list \<times> err option call_result" where
  "Transport env conn1_ok conn2_ok =
     (if conn1_ok \<and> conn2_ok then ([GoMyCopy, GoMyCopy, RecvFirstCopy], Ret (transportErr env))
      else ([GoMyCopy, GoMyCopy, PanicEv], Pan))"

definition forward_ack :: "string \<Rightarrow> bytes" where
  "forward_ack v =
     ''HTTP/1.1 200 Connection Established'' @ CRLF @
     ''Proxy-Agent: gomitmproxy/'' @ v @ CRLF @ CRLF"

text \<open>
  Lines 345--377. The error of \<^verbatim>\<open>Hijack\<close> is overwritten by the dial's without
  being read; the errors of the dial and of \<^verbatim>\<open>connectProxyServer\<close> are logged and
  execution continues.
\<close>

definition Forward :: "forward_env \<Rightarrow> request \<Rightarrow> string \<Rightarrow> event list \<times> outcome" where
  "Forward env req raddr =
     (let connIn_ok = (fHijackErr env = None);
          connOut_ok = (fDialErr env = None);
          t0 = [Hijack, DialTCP raddr] @
               (case fDialErr env of Some e \<Rightarrow> [LogLine ''dial tcp error''] | None \<Rightarrow> [])
      in case connectProxyServer env connOut_ok raddr of
           (t1, Pan) \<Rightarrow> (t0 @ t1, Panicked)
         | (t1, Ret cerr) \<Rightarrow>
            (let t2 = t0 @ t1 @
                      (case cerr of Some e \<Rightarrow> [LogLine ''connectProxyServer error:'']
                       | None \<Rightarrow> []);
                 tr = (case Transport env connIn_ok connOut_ok of
                         (t, Pan) \<Rightarrow> (t, Crashed)
                       | (t, Ret None) \<Rightarrow> (t, Returned)
                       | (t, Ret (Some e)) \<Rightarrow> (t @ [LogLine ''trans error ''], Returned))
             in if reqMethod req = ''CONNECT'' then
                  (if \<not> connIn_ok then (t2 @ [PanicEv], Panicked)
                   else
                     (case fConnWriteErr env of
                        Some e \<Rightarrow>
                          (t2 @ [ConnInWrite (forward_ack (version env)), LogLine ''Write Connect err:''],
                           Returned)
                      | None \<Rightarrow>
                          (t2 @ [ConnInWrite (forward_ack (version env))] @ fst tr, snd tr)))
                else
                  (let req' = req\<lparr>reqHeader :=
                                header_Set ''Connection'' ''Keep-Alive''
                                  (header_Del ''Proxy-Connection'' (reqHeader req))\<rparr>
                   in case fReqWriteErr env of
                        Some e \<Rightarrow> (t2 @ [ReqWrite req', LogLine ''send to server err''], Returned)
                      | None \<Rightarrow> (t2 @ [ReqWrite req'] @ fst tr, snd tr))))"

subsection \<open>The dispatcher: \<^verbatim>\<open>ServeHTTP\<close> (lines 290--304)\<close>

text \<open>
  \<open>raddr\<close> is \<^verbatim>\<open>*hw.MyConfig.Raddr\<close>. The result carries the value the shared field
  \<^verbatim>\<open>hw.https\<close> has afterwards.
\<close>

record serve_env =
  raddr :: string
  relayEnv :: relay_env
  interceptEnv :: intercept_env
  forwardEnv :: forward_env

definition ServeHTTP :: "serve_env \<Rightarrow> bool \<Rightarrow> request \<Rightarrow> (event list \<times> outcome) \<times> bool" where
  "ServeHTTP env https req =
     (if length (raddr env) \<noteq> 0 then (Forward (forwardEnv env) req (raddr env), https)
      else if reqMethod req = ''CONNECT'' then (InterceptHTTPs (interceptEnv env) req, True)
      else (DumpHTTPAndHTTPs (relayEnv env) False req, False))"

subsection \<open>Summary of a relay run\<close>

text \<open>
  What the relay hands to the client, the number of observer calls and the number of
  writes, as functions of the outcomes that decide whether a response is relayed:
  \<open>relayed\<close> holds when an upstream response was obtained.
\<close>

definition relayed :: "relay_env \<Rightarrow> bool" where
  "relayed env =
     (hijackErr env = None \<and> dialErr env = None \<and> reqWriteErr env = None
      \<and> fst (readRes env) \<noteq> None)"

definition relayed_bytes :: "relay_env \<Rightarrow> bytes" where
  "relayed_bytes env =
     (case fst (readRes env) of
        None \<Rightarrow> []
      | Some r \<Rightarrow> if relayed env \<and> dumpRespErr env = None then respWire r else [])"

text \<open>
  The bytes that reach the client socket in a run of the relay, which writes to it once
  (line 184): all the bytes handed to \<^verbatim>\<open>Write\<close>, or, when the write fails, those
  written before the error.
\<close>

definition received :: "relay_env \<Rightarrow> event list \<Rightarrow> bytes" where
  "received env es =
     (case connWriteErr env of
        None \<Rightarrow> client_bytes es
      | Some (n, e) \<Rightarrow> take n (client_bytes es))"

text \<open>Effects that neither reach the client nor call the observer or the monitor dump.\<close>

definition silent :: "event list \<Rightarrow> bool" where
  "silent es = (client_bytes es = [] \<and> \<not> list_ex is_ConnInWrite es \<and> CallFilter \<notin> set es
      \<and> GoHttpDump \<notin> set es)"

text \<open>Effects that neither write to the client socket nor call the observer.\<close>

definition quiet :: "event list \<Rightarrow> bool" where
  "quiet es = (client_bytes es = [] \<and> CallFilter \<notin> set es \<and> filter is_ConnInWrite es = [])"

subsection \<open>The server around a handler\<close>





subsection \<open>Concrete inputs\<close>

text \<open>
  An environment in which every external operation succeeds, a plain request and a
  \<^verbatim>\<open>CONNECT\<close> request; the instances below change one outcome at a time.
\<close>

definition example_response :: response where
  "example_response =
     \<lparr>respStatusCode = 200, respStatus = ''200 OK'',
      respWire = ''HTTP/1.1 200 OK'' @ CRLF @ ''Content-Length: 2'' @ CRLF @ CRLF @ ''hi''\<rparr>"

definition ok_observer :: observer_env where
  "ok_observer =
     \<lparr>marshalErr = None, newRequestErr = None, doRes = DoOk, readAllErr = None,
      unmarshalRes = Inr 1000\<rparr>"

definition failing_observer :: observer_env where
  "failing_observer =
     \<lparr>marshalErr = None, newRequestErr = None, doRes = DoErr ''connection refused'' False,
      readAllErr = None, unmarshalRes = Inl ''unexpected end of JSON input''\<rparr>"

definition ok_relay_env :: relay_env where
  "ok_relay_env =
     \<lparr>raceErr116 = None, hijackErr = None, dialErr = None, reqWriteErr = None,
      readRes = (Some example_response, None), dumpRespErr = None, connWriteErr = None,
      monitor = False, observer = ok_observer\<rparr>"

definition example_request :: request where
  "example_request =
     \<lparr>reqMethod = ''GET'', reqHost = ''example.test'',
      reqRequestURI = ''http://pub.alimama.com/a'',
      reqHeader = [(''Cookie'', [''a=1'', ''b=2'']), (''Proxy-Connection'', [''keep-alive''])],
      reqURLScheme = ''http'', reqURLHost = ''example.test''\<rparr>"

definition example_connect :: request where
  "example_connect =
     \<lparr>reqMethod = ''CONNECT'', reqHost = ''example.test:443'',
      reqRequestURI = ''example.test:443'', reqHeader = [],
      reqURLScheme = [], reqURLHost = ''example.test:443''\<rparr>"

definition ok_forward_env :: forward_env where
  "ok_forward_env =
     \<lparr>fHijackErr = None, fDialErr = None, preambleWriteErr = None,
      preambleReadRes = (Some example_response, None), fConnWriteErr = None,
      fReqWriteErr = None, transportErr = None, version = ''1.0''\<rparr>"

definition proxy_407 :: response where
  "proxy_407 =
     \<lparr>respStatusCode = 407, respStatus = ''407 Proxy Authentication Required'',
      respWire = ''HTTP/1.1 407 Proxy Authentication Required'' @ CRLF @ CRLF\<rparr>"

section \<open>The client socket during HTTPS interception\<close>

text \<open>
  After \<^verbatim>\<open>go func() { http.Serve(listener, handler) }()\<close> (line 335) two goroutines
  write to the hijacked socket: the handler, which still has its acknowledgement to write
  (line 342), and the server goroutine, whose connection is the TLS session made by
  \<^verbatim>\<open>tls.Server\<close> at line 326. \<^verbatim>\<open>tls.Server\<close> itself does no I/O; the server side of
  a TLS handshake first reads the client's ClientHello and only then writes its first
  record. The socket is modelled with what has been written to it, in order, and whether
  a ClientHello of the client has arrived.
\<close>

datatype wire_item = Plain bytes | TLSRecord

datatype serve_pc = NotStarted | AwaitHello | Established

record tunnel =
  todo :: "event list"
  serving :: serve_pc
  helloSent :: bool
  toClient :: "wire_item list"

datatype tunnel_action = Handler | Server | ClientHello

text \<open>The handler performs the next of its effects; two of them touch the socket or the server.\<close>

fun handler_effect :: "event \<Rightarrow> tunnel \<Rightarrow> tunnel" where
  "handler_effect GoServe s = s\<lparr>serving := AwaitHello\<rparr>"
| "handler_effect (ConnInWrite b) s = s\<lparr>toClient := toClient s @ [Plain b]\<rparr>"
| "handler_effect e s = s"

text \<open>
  One step. The server goroutine does nothing before it is started, waits for the
  ClientHello, and writes TLS records from then on. A client that is \<open>polite\<close> sends its
  ClientHello only once the acknowledgement is on the socket; any other client may send
  it at any time.
\<close>

definition intercept_ack_sent :: "tunnel \<Rightarrow> bool" where
  "intercept_ack_sent s = (Plain intercept_ack \<in> set (toClient s))"

fun tunnel_step :: "bool \<Rightarrow> tunnel_action \<Rightarrow> tunnel \<Rightarrow> tunnel" where
  "tunnel_step polite Handler s =
     (case todo s of [] \<Rightarrow> s | e # es \<Rightarrow> handler_effect e (s\<lparr>todo := es\<rparr>))"
| "tunnel_step polite Server s =
     (case serving s of
        NotStarted \<Rightarrow> s
      | AwaitHello \<Rightarrow>
          if helloSent s then s\<lparr>serving := Established, toClient := toClient s @ [TLSRecord]\<rparr>
          else s
      | Established \<Rightarrow> s\<lparr>toClient := toClient s @ [TLSRecord]\<rparr>)"
| "tunnel_step polite ClientHello s =
     (if polite \<and> \<not> intercept_ack_sent s then s else s\<lparr>helloSent := True\<rparr>)"

fun tunnel_run :: "bool \<Rightarrow> tunnel_action list \<Rightarrow> tunnel \<Rightarrow> tunnel" where
  "tunnel_run polite [] s = s"
| "tunnel_run polite (a # as) s = tunnel_run polite as (tunnel_step polite a s)"

text \<open>The start of a request: the handler has all of \<^verbatim>\<open>InterceptHTTPs\<close> before it.\<close>

definition tunnel_init :: "intercept_env \<Rightarrow> request \<Rightarrow> tunnel" where
  "tunnel_init env req =
     \<lparr>todo = fst (InterceptHTTPs env req), serving = NotStarted, helloSent = False,
      toClient = []\<rparr>"

text \<open>The acknowledgement comes before every TLS record on the socket.\<close>

definition ack_precedes :: "wire_item list \<Rightarrow> bool" where
  "ack_precedes w = (TLSRecord \<notin> set (takeWhile (\<lambda>x. x \<noteq> Plain intercept_ack) w))"

text \<open>
  The invariant: the acknowledgement comes first, a ClientHello has arrived or the server
  is past the handshake only if the acknowledgement is on the socket, and what the
  handler still has to do is a suffix of a run of \<^verbatim>\<open>InterceptHTTPs\<close> that writes nothing
  but the acknowledgement.
\<close>

fun writes_only_ack :: "event list \<Rightarrow> bool" where
  "writes_only_ack [] = True"
| "writes_only_ack (ConnInWrite b # es) = (b = intercept_ack \<and> writes_only_ack es)"
| "writes_only_ack (e # es) = writes_only_ack es"

definition tunnel_inv :: "tunnel \<Rightarrow> bool" where
  "tunnel_inv s =
     (ack_precedes (toClient s)
      \<and> (helloSent s \<or> serving s = Established \<longrightarrow> intercept_ack_sent s)
      \<and> writes_only_ack (todo s))"

text \<open>The handler still has the acknowledgement to write.\<close>

fun has_ack_write :: "event list \<Rightarrow> bool" where
  "has_ack_write [] = False"
| "has_ack_write (ConnInWrite b # es) = (b = intercept_ack \<or> has_ack_write es)"
| "has_ack_write (e # es) = has_ack_write es"

definition ok_intercept_env :: intercept_env where
  "ok_intercept_env = \<lparr>certErr = None, iHijackErr = None\<rparr>"

text \<open>
  The handler runs up to the start of the server goroutine, the client's ClientHello
  arrives, the server answers it, and only then does the handler write.
\<close>

definition eager_client :: "tunnel_action list" where
  "eager_client = [Handler, Handler, Handler, Handler, ClientHello, Server, Handler]"

text \<open>The handler runs to its end, then the client sends its ClientHello and the server answers.\<close>

definition polite_client :: "tunnel_action list" where
  "polite_client = [Handler, Handler, Handler, Handler, ClientHello, Server, Handler, ClientHello, Server]"

section \<open>Keys, certificates and the certificate cache\<close>

text \<open>
  An instant (\<^verbatim>\<open>time.Time\<close>) is a number of nanoseconds since the epoch, a
  \<^verbatim>\<open>time.Duration\<close> a number of nanoseconds.
\<close>

type_synonym time = int
type_synonym duration = int

text \<open>\<^verbatim>\<open>time.Second\<close>.\<close>

definition ONE_SECOND :: duration where
  "ONE_SECOND = 1000000000"

text \<open>
  Modelled from the spec: the constant \<^verbatim>\<open>ONE_DAY\<close> is declared outside \<^verbatim>\<open>mitm.go\<close>.
  The spec's cache TTL is the leaf validity minus 1 day; a duration of one day.
\<close>

definition ONE_DAY :: duration where
  "ONE_DAY = 24 * 3600 * ONE_SECOND"

text \<open>
  Modelled from the spec: the constant \<^verbatim>\<open>TWO_WEEKS\<close> is declared outside
  \<^verbatim>\<open>mitm.go\<close>. The spec's leaf validity is 2 weeks from issuance.
\<close>

definition TWO_WEEKS :: duration where
  "TWO_WEEKS = 14 * ONE_DAY"

text \<open>
  Modelled from the spec: the constant \<^verbatim>\<open>ONE_MONTH\<close> is declared outside
  \<^verbatim>\<open>mitm.go\<close>. The spec regenerates an issuing certificate that expires within one
  month; the constant is the month count passed to \<^verbatim>\<open>AddDate\<close>.
\<close>

definition ONE_MONTH :: int where
  "ONE_MONTH = 1"

text \<open>
  Modelled from the spec: the constant \<^verbatim>\<open>ONE_YEAR\<close> is declared outside \<^verbatim>\<open>mitm.go\<close>.
  The spec's new issuing certificate is valid for one year; the constant is the year count
  passed to \<^verbatim>\<open>AddDate\<close>.
\<close>

definition ONE_YEAR :: int where
  "ONE_YEAR = 1"

text \<open>
  Modelled from the spec: the type \<^verbatim>\<open>PrivateKey\<close> is declared outside \<^verbatim>\<open>mitm.go\<close>.
  The spec's signing key is an RSA private key; \<open>keyId\<close> stands for its material.
\<close>

record private_key =
  keyBits :: nat
  keyId :: nat

text \<open>
  Modelled from the spec: the type \<^verbatim>\<open>Certificate\<close> is declared outside \<^verbatim>\<open>mitm.go\<close>.
  Of an X.509 certificate the spec names the subject organization and common name,
  \<open>notAfter\<close>, the CA flag and the issuer (here its common name, none when self-signed);
  the serial number tells the results of two signing operations apart.
\<close>

record certificate =
  subjectOrg :: string
  subjectCN :: string
  notAfter :: time
  isCA :: bool
  issuerCN :: "string option"
  serial :: nat

text \<open>The PEM encoding of a key or of a certificate (\<^verbatim>\<open>PEMEncoded()\<close>).\<close>

datatype pem = KeyPEM private_key | CertPEM certificate

text \<open>The outcome of a signing operation: it fails, or it yields a serial number.\<close>

datatype sign_outcome = SignFails err | Signed nat

text \<open>
  Modelled from the spec: the method
  \<^verbatim>\<open>PrivateKey.TLSCertificateFor(organization, name, validUntil, isCA, issuer)\<close> is
  declared outside \<^verbatim>\<open>mitm.go\<close>. Per the spec it signs a certificate with subject
  organization and common name as given, \<open>notAfter\<close> as given, a CA or a leaf as asked,
  signed by the issuer or self-signed, or it fails (\<open>CertSignError\<close>).
\<close>

definition TLSCertificateFor ::
  "sign_outcome \<Rightarrow> string \<Rightarrow> string \<Rightarrow> time \<Rightarrow> bool \<Rightarrow> certificate option \<Rightarrow> err + certificate" where
  "TLSCertificateFor so org name validUntil ca issuer =
     (case so of
        SignFails e \<Rightarrow> Inl e
      | Signed n \<Rightarrow>
          Inr \<lparr>subjectOrg = org, subjectCN = name, notAfter = validUntil, isCA = ca,
               issuerCN = map_option subjectCN issuer, serial = n\<rparr>)"

text \<open>
  Modelled from the spec: the method \<^verbatim>\<open>Certificate.ExpiresBefore(t)\<close> is declared
  outside \<^verbatim>\<open>mitm.go\<close>. The spec regenerates the issuing certificate if it "expires
  within one month'': the certificate expires before the instant \<open>t\<close>.
\<close>

definition ExpiresBefore :: "certificate \<Rightarrow> time \<Rightarrow> bool" where
  "ExpiresBefore c t = (notAfter c < t)"

text \<open>A \<^verbatim>\<open>tls.Certificate\<close>: the leaf and the PEM of its private key.\<close>

record keypair =
  leaf :: certificate
  privKeyPem :: "pem option"

text \<open>
  An encoded X.509 certificate holds its validity in whole seconds. The leaf of the key
  pair that \<^verbatim>\<open>tls.X509KeyPair\<close> parses out of \<^verbatim>\<open>generatedCert.PEMEncoded()\<close>
  (line 94) is therefore the signed certificate with \<open>notAfter\<close> cut to the second.
\<close>

definition whole_seconds :: "time \<Rightarrow> time" where
  "whole_seconds t = t - t mod ONE_SECOND"

definition parsed_leaf :: "certificate \<Rightarrow> certificate" where
  "parsed_leaf c = c\<lparr>notAfter := whole_seconds (notAfter c)\<rparr>"

text \<open>
  Modelled from the spec: the type \<^verbatim>\<open>Cache\<close> is declared outside \<^verbatim>\<open>mitm.go\<close>. The
  spec's \<open>CertCache\<close> is a mapping from host to key pair with a per-entry absolute
  expiry.
\<close>

record cache_entry =
  entryData :: keypair
  expiration :: time

type_synonym cache = "string \<Rightarrow> cache_entry option"

text \<open>
  Modelled from the spec: \<^verbatim>\<open>NewCache()\<close> is declared outside \<^verbatim>\<open>mitm.go\<close>; a cache
  without entries.
\<close>

definition NewCache :: cache where
  "NewCache = (\<lambda>k. None)"

text \<open>
  Modelled from the spec: \<^verbatim>\<open>Cache.Get(key)\<close> is declared outside \<^verbatim>\<open>mitm.go\<close>. Per the
  spec a lookup returns the entry if it is present and unexpired, that is while its TTL has
  not elapsed, and eviction is lazy on lookup. \<open>now\<close> is the cache's reading of the
  clock.
\<close>

definition cache_Get :: "cache \<Rightarrow> string \<Rightarrow> time \<Rightarrow> keypair option \<times> cache" where
  "cache_Get c k now =
     (case c k of
        None \<Rightarrow> (None, c)
      | Some e \<Rightarrow> if now < expiration e then (Some (entryData e), c) else (None, c(k := None)))"

text \<open>
  Modelled from the spec: \<^verbatim>\<open>Cache.Set(key, value, ttl)\<close> is declared outside
  \<^verbatim>\<open>mitm.go\<close>. Per the spec the entry is inserted with a TTL and holds an absolute
  expiry: \<open>ttl\<close> after \<open>now\<close>, the cache's reading of the clock at the insertion.
\<close>

definition cache_Set :: "cache \<Rightarrow> string \<Rightarrow> keypair \<Rightarrow> duration \<Rightarrow> time \<Rightarrow> cache" where
  "cache_Set c k v ttl now = c(k \<mapsto> \<lparr>entryData = v, expiration = now + ttl\<rparr>)"

subsection \<open>The issuing certificate: \<^verbatim>\<open>GenerateCertForClient\<close> (lines 38--68)\<close>

record tls_config =
  organization :: string
  commonName :: string
  privateKeyFile :: string
  certFile :: string

text \<open>The fields of \<^verbatim>\<open>HandlerWrapper\<close> that hold the key and the issuing certificate.\<close>

record handler_wrapper =
  tlsConfig :: tls_config
  pk :: "private_key option"
  pkPem :: "pem option"
  issuingCert :: "certificate option"
  issuingCertPem :: "pem option"

text \<open>
  The outcomes of the external operations: the constant \<^verbatim>\<open>Version\<close> (declared outside
  \<^verbatim>\<open>mitm.go\<close>), \<^verbatim>\<open>LoadPKFromFile\<close>, \<^verbatim>\<open>GeneratePK(2048)\<close>, the error of
  \<^verbatim>\<open>hw.pk.WriteToFile\<close> (line 50), \<^verbatim>\<open>LoadCertificateFromFile\<close>, the readings of
  \<^verbatim>\<open>time.Now()\<close> at lines 54 and 58, the signing at lines 55--60, the error of
  \<^verbatim>\<open>hw.issuingCert.WriteToFile\<close> (line 64), and Go's calendar arithmetic
  \<^verbatim>\<open>t.AddDate(years, months, days)\<close>.
\<close>

record ca_env =
  caVersion :: string
  loadPK :: "err + private_key"
  generatePK :: "err + private_key"
  writePKErr :: "err option"
  loadCert :: "err + certificate"
  now54 :: time
  now58 :: time
  selfSign :: sign_outcome
  writeCertErr :: "err option"
  addDate :: "int \<Rightarrow> int \<Rightarrow> int \<Rightarrow> time \<Rightarrow> time"

text \<open>The calls of \<^verbatim>\<open>WriteToFile\<close>: the file and what is to be written to it.\<close>

datatype file_event = WritePKFile string private_key | WriteCertFile string certificate

text \<open>
  Modelled from the spec: the methods \<^verbatim>\<open>PrivateKey.WriteToFile\<close> and
  \<^verbatim>\<open>Certificate.WriteToFile\<close> are declared outside \<^verbatim>\<open>mitm.go\<close>. Per the spec the
  key and the certificate are persisted PEM-encoded. What the files hold after the calls
  \<open>w\<close>: a write that succeeds replaces the content of its file, and a write that fails
  is taken to leave it as it was.
\<close>

fun write_file :: "ca_env \<Rightarrow> (string \<Rightarrow> pem option) \<Rightarrow> file_event \<Rightarrow> (string \<Rightarrow> pem option)" where
  "write_file env fs (WritePKFile f k) = (if writePKErr env = None then fs(f \<mapsto> KeyPEM k) else fs)"
| "write_file env fs (WriteCertFile f c) = (if writeCertErr env = None then fs(f \<mapsto> CertPEM c) else fs)"

definition stored :: "ca_env \<Rightarrow> file_event list \<Rightarrow> (string \<Rightarrow> pem option) \<Rightarrow> (string \<Rightarrow> pem option)" where
  "stored env w fs = foldl (write_file env) fs w"

text \<open>Lines 39--44: the defaults of the subject fields.\<close>

definition with_defaults :: "string \<Rightarrow> tls_config \<Rightarrow> tls_config" where
  "with_defaults v cfg =
     (let cfg1 = (if organization cfg = [] then cfg\<lparr>organization := ''gomitmproxy'' @ v\<rparr> else cfg)
      in if commonName cfg1 = [] then cfg1\<lparr>commonName := ''gomitmproxy''\<rparr> else cfg1)"

text \<open>
  Lines 55--66: a new self-signed CA certificate, valid for \<^verbatim>\<open>ONE_YEAR\<close> from the
  reading of the clock at line 58, handed to \<^verbatim>\<open>WriteToFile\<close>, whose result the
  source drops.
\<close>

definition regenerate ::
  "ca_env \<Rightarrow> handler_wrapper \<Rightarrow> file_event list \<Rightarrow> err option \<times> handler_wrapper \<times> file_event list" where
  "regenerate env hw w =
     (case TLSCertificateFor (selfSign env) (organization (tlsConfig hw)) (commonName (tlsConfig hw))
             (addDate env ONE_YEAR 0 0 (now58 env)) True None of
        Inl e \<Rightarrow>
          (Some (''Unable to generate self-signed issuing certificate: '' @ e),
           hw\<lparr>issuingCert := None\<rparr>, w)
      | Inr c \<Rightarrow>
          (None, hw\<lparr>issuingCert := Some c, issuingCertPem := Some (CertPEM c)\<rparr>,
           w @ [WriteCertFile (certFile (tlsConfig hw)) c]))"

text \<open>
  Lines 45--51: the private key is loaded, or generated and handed to
  \<^verbatim>\<open>WriteToFile\<close>, whose result the source drops.
\<close>

definition load_or_generate_pk ::
  "ca_env \<Rightarrow> string \<Rightarrow> err + private_key \<times> file_event list" where
  "load_or_generate_pk env file =
     (case loadPK env of
        Inr k \<Rightarrow> Inr (k, [])
      | Inl e \<Rightarrow>
         (case generatePK env of
            Inl e' \<Rightarrow> Inl e'
          | Inr k \<Rightarrow> Inr (k, [WritePKFile file k])))"

text \<open>
  Lines 53--66: the issuing certificate is loaded; when that fails, or when the loaded
  certificate expires before one month from the reading of the clock at line 54, a new
  one is made.
\<close>

definition ensure_issuing_cert ::
  "ca_env \<Rightarrow> handler_wrapper \<Rightarrow> file_event list \<Rightarrow> err option \<times> handler_wrapper \<times> file_event list" where
  "ensure_issuing_cert env hw w =
     (case loadCert env of
        Inl e \<Rightarrow> regenerate env (hw\<lparr>issuingCert := None\<rparr>) w
      | Inr c \<Rightarrow>
          if ExpiresBefore c (addDate env 0 ONE_MONTH 0 (now54 env))
          then regenerate env (hw\<lparr>issuingCert := Some c\<rparr>) w
          else (None, hw\<lparr>issuingCert := Some c, issuingCertPem := Some (CertPEM c)\<rparr>, w))"

definition GenerateCertForClient ::
  "ca_env \<Rightarrow> handler_wrapper \<Rightarrow> err option \<times> handler_wrapper \<times> file_event list" where
  "GenerateCertForClient env hw0 =
     (let hw1 = hw0\<lparr>tlsConfig := with_defaults (caVersion env) (tlsConfig hw0)\<rparr> in
      case load_or_generate_pk env (privateKeyFile (tlsConfig hw1)) of
        Inl e \<Rightarrow> (Some (''Unable to generate private key: '' @ e), hw1\<lparr>pk := None\<rparr>, [])
      | Inr (k, w) \<Rightarrow> ensure_issuing_cert env (hw1\<lparr>pk := Some k, pkPem := Some (KeyPEM k)\<rparr>) w)"

text \<open>
  Whether the source takes the branch of lines 55--65: the load failed, or the loaded
  certificate expires within the month.
\<close>

definition must_regenerate :: "ca_env \<Rightarrow> bool" where
  "must_regenerate env =
     (case loadCert env of
        Inl e \<Rightarrow> True
      | Inr c \<Rightarrow> notAfter c < addDate env 0 ONE_MONTH 0 (now54 env))"

text \<open>\<^verbatim>\<open>InitConfig\<close> (lines 379--391), without the fields set there that the above does not read.\<close>

definition InitConfig :: "ca_env \<Rightarrow> tls_config \<Rightarrow> (err + handler_wrapper) \<times> file_event list" where
  "InitConfig env cfg =
     (case GenerateCertForClient env
             \<lparr>tlsConfig = cfg, pk = None, pkPem = None, issuingCert = None, issuingCertPem = None\<rparr> of
        (Some e, hw, w) \<Rightarrow> (Inl e, w)
      | (None, hw, w) \<Rightarrow> (Inr hw, w))"

subsection \<open>Leaf certificates: \<^verbatim>\<open>FakeCertForName\<close> (lines 70--102)\<close>

text \<open>
  Several calls of \<^verbatim>\<open>FakeCertForName\<close> run at once, so the function is embedded
  statement by statement. A call is at one of the statements of lines 71, 73 (the
  \<^verbatim>\<open>return\<close> after a hit, with the key pair found), 76, 78, 85 (which reads the clock
  and signs), 94 (with the signed certificate) and 100 (with the key pair), or at one of
  the \<^verbatim>\<open>return\<close> statements behind line 77 (lines 80, 92, 96 and 101, with the result),
  which run the deferred \<^verbatim>\<open>Unlock\<close>, or it is done: it returned a key pair or an
  error, or it panicked on a nil private key.
\<close>

datatype fc_result = FcOk keypair | FcErr err | FcPanic

datatype fc_pc =
    FC_L71
  | FC_L73 keypair
  | FC_L76
  | FC_L78
  | FC_L85
  | FC_L94 certificate
  | FC_L100 keypair
  | FC_Return fc_result
  | FC_Done fc_result

text \<open>
  What the calls share: the clock, the contents of \<^verbatim>\<open>hw.dynamicCerts\<close>, the holder of
  \<^verbatim>\<open>hw.certMutex\<close>, where each call stands, and the names passed to
  \<^verbatim>\<open>TLSCertificateFor\<close> so far (latest first). \<open>readAt\<close> records, for each call, its
  latest reading of the clock (in \<^verbatim>\<open>Get\<close>, in \<^verbatim>\<open>time.Now()\<close> at line 88 or in
  \<^verbatim>\<open>Set\<close>); the calls do not read it.
\<close>

record fc_state =
  clock :: time
  dynamicCerts :: cache
  certMutex :: "nat option"
  pcs :: "fc_pc list"
  signOps :: "string list"
  readAt :: "nat \<Rightarrow> time"

text \<open>
  The outcomes of the external operations: the \<open>k\<close>-th signing and
  \<^verbatim>\<open>tls.X509KeyPair\<close> on its result.
\<close>

record cert_env =
  signRes :: "nat \<Rightarrow> sign_outcome"
  parseErr :: "nat \<Rightarrow> err option"

definition set_pc :: "nat \<Rightarrow> fc_pc \<Rightarrow> fc_state \<Rightarrow> fc_state" where
  "set_pc i p s = s\<lparr>pcs := (pcs s)[i := p]\<rparr>"

definition read_clock :: "nat \<Rightarrow> fc_state \<Rightarrow> fc_state" where
  "read_clock i s = s\<lparr>readAt := (readAt s)(i := clock s)\<rparr>"

text \<open>One statement of call \<open>i\<close>, whose argument is \<open>names ! i\<close>.\<close>

definition fc_step :: "cert_env \<Rightarrow> handler_wrapper \<Rightarrow> string list \<Rightarrow> nat \<Rightarrow> fc_state \<Rightarrow> fc_state" where
  "fc_step env hw names i s =
     (if i < length (pcs s) \<and> i < length names then
        (let name = names ! i in
         case pcs s ! i of
           FC_L71 \<Rightarrow>
             (case cache_Get (dynamicCerts s) name (clock s) of
                (Some kp, c) \<Rightarrow> set_pc i (FC_L73 kp) (read_clock i (s\<lparr>dynamicCerts := c\<rparr>))
              | (None, c) \<Rightarrow> set_pc i FC_L76 (read_clock i (s\<lparr>dynamicCerts := c\<rparr>)))
         | FC_L73 kp \<Rightarrow> set_pc i (FC_Done (FcOk kp)) s
         | FC_L76 \<Rightarrow>
             (case certMutex s of
                None \<Rightarrow> set_pc i FC_L78 (s\<lparr>certMutex := Some i\<rparr>)
              | Some j \<Rightarrow> s)
         | FC_L78 \<Rightarrow>
             (case cache_Get (dynamicCerts s) name (clock s) of
                (Some kp, c) \<Rightarrow>
                  set_pc i (FC_Return (FcOk kp)) (read_clock i (s\<lparr>dynamicCerts := c\<rparr>))
              | (None, c) \<Rightarrow> set_pc i FC_L85 (read_clock i (s\<lparr>dynamicCerts := c\<rparr>)))
         | FC_L85 \<Rightarrow>
             (case pk hw of
                None \<Rightarrow> set_pc i (FC_Return FcPanic) s
              | Some k \<Rightarrow>
                 (case TLSCertificateFor (signRes env (length (signOps s)))
                         (organization (tlsConfig hw)) name (clock s + TWO_WEEKS) False
                         (issuingCert hw) of
                    Inl e \<Rightarrow>
                      set_pc i (FC_Return (FcErr (''Unable to issue certificate: '' @ e)))
                        (read_clock i (s\<lparr>signOps := name # signOps s\<rparr>))
                  | Inr c \<Rightarrow>
                      set_pc i (FC_L94 c) (read_clock i (s\<lparr>signOps := name # signOps s\<rparr>))))
         | FC_L94 c \<Rightarrow>
             (case parseErr env (length (signOps s)) of
                Some e \<Rightarrow>
                  set_pc i (FC_Return (FcErr (''Unable to parse keypair for tls: '' @ e))) s
              | None \<Rightarrow> set_pc i (FC_L100 \<lparr>leaf = parsed_leaf c, privKeyPem = pkPem hw\<rparr>) s)
         | FC_L100 kp \<Rightarrow>
             set_pc i (FC_Return (FcOk kp))
               (read_clock i
                  (s\<lparr>dynamicCerts :=
                       cache_Set (dynamicCerts s) name kp (TWO_WEEKS - ONE_DAY) (clock s)\<rparr>))
         | FC_Return r \<Rightarrow> set_pc i (FC_Done r) (s\<lparr>certMutex := None\<rparr>)
         | FC_Done r \<Rightarrow> s)
      else s)"

text \<open>A run interleaves statements of the calls with the passing of time.\<close>

datatype action = Step nat | Tick duration

fun fc_act :: "cert_env \<Rightarrow> handler_wrapper \<Rightarrow> string list \<Rightarrow> action \<Rightarrow> fc_state \<Rightarrow> fc_state" where
  "fc_act env hw names (Step i) s = fc_step env hw names i s"
| "fc_act env hw names (Tick d) s = s\<lparr>clock := clock s + d\<rparr>"

fun fc_run :: "cert_env \<Rightarrow> handler_wrapper \<Rightarrow> string list \<Rightarrow> action list \<Rightarrow> fc_state \<Rightarrow> fc_state" where
  "fc_run env hw names [] s = s"
| "fc_run env hw names (a # as) s = fc_run env hw names as (fc_act env hw names a s)"

text \<open>The start: an empty cache (\<^verbatim>\<open>NewCache()\<close> in \<^verbatim>\<open>InitConfig\<close>) and \<open>n\<close> calls about to begin.\<close>

definition fc_init :: "time \<Rightarrow> nat \<Rightarrow> fc_state" where
  "fc_init t0 n =
     \<lparr>clock = t0, dynamicCerts = NewCache, certMutex = None, pcs = replicate n FC_L71,
      signOps = [], readAt = (\<lambda>i. t0)\<rparr>"

text \<open>Time does not run backwards, and the time that passes in a run.\<close>

fun ticks_ok :: "action list \<Rightarrow> bool" where
  "ticks_ok [] = True"
| "ticks_ok (Tick d # as) = (0 \<le> d \<and> ticks_ok as)"
| "ticks_ok (Step i # as) = ticks_ok as"

fun elapsed :: "action list \<Rightarrow> duration" where
  "elapsed [] = 0"
| "elapsed (Tick d # as) = d + elapsed as"
| "elapsed (Step i # as) = elapsed as"

subsection \<open>Latency\<close>

text \<open>
  The time a call takes between a reading of the clock and the statement that depends on
  it. \<open>latency_ok D a s\<close> holds of an action when time does not run backwards and, if
  the action is the insertion at line 100 or the \<^verbatim>\<open>return\<close> of a key pair, at most
  \<open>D\<close> has passed since that call last read the clock: at line 88 before the insertion
  (the leaf's \<open>notAfter\<close> is that reading plus \<^verbatim>\<open>TWO_WEEKS\<close>, in whole seconds), in
  the lookup or in the insertion before the \<^verbatim>\<open>return\<close>. \<open>run_ok\<close> asks this of every
  action of a run.
\<close>

fun timed :: "fc_pc \<Rightarrow> bool" where
  "timed (FC_L100 kp) = True"
| "timed (FC_L73 kp) = True"
| "timed (FC_Return (FcOk kp)) = True"
| "timed p = False"

fun latency_ok :: "duration \<Rightarrow> action \<Rightarrow> fc_state \<Rightarrow> bool" where
  "latency_ok D (Tick d) s = (0 \<le> d)"
| "latency_ok D (Step i) s =
     (if i < length (pcs s) \<and> timed (pcs s ! i) then clock s \<le> readAt s i + D else True)"

fun run_ok ::
  "duration \<Rightarrow> cert_env \<Rightarrow> handler_wrapper \<Rightarrow> string list \<Rightarrow> action list \<Rightarrow> fc_state \<Rightarrow> bool" where
  "run_ok D env hw names [] s = True"
| "run_ok D env hw names (a # as) s =
     (latency_ok D a s \<and> run_ok D env hw names as (fc_act env hw names a s))"

text \<open>
  The invariant behind the bounds on a leaf's remaining validity. No certificate in the
  cache or in the hands of a call is valid for more than two weeks from now; a cache entry
  expires at least a day, less one second and the latency \<open>D\<close>, before its
  certificate; the certificate signed at line 85 is valid until two weeks after the
  reading of the clock there, its parsed form until the whole second at or before that;
  and a key pair about to be returned had, when the call last read the clock, more than a
  day less one second and \<open>D\<close> left.
\<close>

definition entry_ok :: "duration \<Rightarrow> time \<Rightarrow> cache_entry \<Rightarrow> bool" where
  "entry_ok D now e =
     (notAfter (leaf (entryData e)) \<le> now + TWO_WEEKS
      \<and> expiration e + ONE_DAY < notAfter (leaf (entryData e)) + ONE_SECOND + D)"

definition serving_ok :: "duration \<Rightarrow> time \<Rightarrow> time \<Rightarrow> keypair \<Rightarrow> bool" where
  "serving_ok D now t kp =
     (t \<le> now \<and> notAfter (leaf kp) \<le> now + TWO_WEEKS
      \<and> t + ONE_DAY < notAfter (leaf kp) + ONE_SECOND + D)"

fun pc_ok :: "duration \<Rightarrow> time \<Rightarrow> time \<Rightarrow> fc_pc \<Rightarrow> bool" where
  "pc_ok D now t (FC_L94 c) = (t \<le> now \<and> notAfter c = t + TWO_WEEKS)"
| "pc_ok D now t (FC_L100 kp) =
     (t \<le> now \<and> t + TWO_WEEKS < notAfter (leaf kp) + ONE_SECOND
      \<and> notAfter (leaf kp) \<le> t + TWO_WEEKS)"
| "pc_ok D now t (FC_L73 kp) = serving_ok D now t kp"
| "pc_ok D now t (FC_Return (FcOk kp)) = serving_ok D now t kp"
| "pc_ok D now t p = True"

definition cache_inv :: "duration \<Rightarrow> fc_state \<Rightarrow> bool" where
  "cache_inv D s =
     ((\<forall>k e. dynamicCerts s k = Some e \<longrightarrow> entry_ok D (clock s) e)
      \<and> (\<forall>i < length (pcs s). pc_ok D (clock s) (readAt s i) (pcs s ! i)))"

text \<open>The certificate line 85 obtains when the signing succeeds with serial \<open>n\<close>.\<close>

definition minted :: "handler_wrapper \<Rightarrow> string \<Rightarrow> time \<Rightarrow> nat \<Rightarrow> certificate" where
  "minted hw name now n =
     \<lparr>subjectOrg = organization (tlsConfig hw), subjectCN = name, notAfter = now + TWO_WEEKS,
      isCA = False, issuerCN = map_option subjectCN (issuingCert hw), serial = n\<rparr>"

subsection \<open>Scheduling\<close>

text \<open>
  A call can take its next statement unless it has returned or waits at line 76 for the
  mutex while another call holds it; the scheduler does not run a blocked call, and a step
  of a call that cannot move leaves the state as it is. \<open>remaining\<close> bounds the
  statements a call has before it, \<open>work\<close> sums it over the calls, and \<open>fc_moves\<close>
  counts the steps of a run in which a call moves.
\<close>

definition can_step :: "string list \<Rightarrow> fc_state \<Rightarrow> nat \<Rightarrow> bool" where
  "can_step names s i =
     (i < length (pcs s) \<and> i < length names \<and>
      (case pcs s ! i of
         FC_Done r \<Rightarrow> False
       | FC_L76 \<Rightarrow> certMutex s = None
       | _ \<Rightarrow> True))"

fun remaining :: "fc_pc \<Rightarrow> nat" where
  "remaining FC_L71 = 7"
| "remaining FC_L76 = 6"
| "remaining FC_L78 = 5"
| "remaining FC_L85 = 4"
| "remaining (FC_L94 c) = 3"
| "remaining (FC_L100 kp) = 2"
| "remaining (FC_L73 kp) = 1"
| "remaining (FC_Return r) = 1"
| "remaining (FC_Done r) = 0"

definition work :: "fc_pc list \<Rightarrow> nat" where
  "work ps = sum_list (map remaining ps)"

fun fc_moves :: "cert_env \<Rightarrow> handler_wrapper \<Rightarrow> string list \<Rightarrow> action list \<Rightarrow> fc_state \<Rightarrow> nat" where
  "fc_moves env hw names [] s = 0"
| "fc_moves env hw names (Step i # as) s =
     (if can_step names s i then 1 else 0) + fc_moves env hw names as (fc_step env hw names i s)"
| "fc_moves env hw names (Tick d # as) s =
     fc_moves env hw names as (s\<lparr>clock := clock s + d\<rparr>)"

fun is_done :: "fc_pc \<Rightarrow> bool" where
  "is_done (FC_Done r) = True"
| "is_done p = False"

subsection \<open>Memoization\<close>

text \<open>
  Where a call stands: between the second lookup and the insertion (\<open>in_mint\<close>), in
  the critical section (\<open>in_cs\<close>), before the outcome of its second lookup
  (\<open>before_lookup\<close>); the key pair it returns or has returned (\<open>result_of\<close>); whether
  it has signed and neither inserted nor returned a key pair (\<open>has_signed\<close>), and
  whether it fails (\<open>is_failed\<close>) or ends without a key pair (\<open>is_bad\<close>).
\<close>

fun in_mint :: "fc_pc \<Rightarrow> bool" where
  "in_mint FC_L85 = True"
| "in_mint (FC_L94 c) = True"
| "in_mint (FC_L100 kp) = True"
| "in_mint p = False"

fun in_cs :: "fc_pc \<Rightarrow> bool" where
  "in_cs FC_L78 = True"
| "in_cs (FC_Return r) = True"
| "in_cs p = in_mint p"

fun before_lookup :: "fc_pc \<Rightarrow> bool" where
  "before_lookup FC_L71 = True"
| "before_lookup FC_L76 = True"
| "before_lookup FC_L78 = True"
| "before_lookup p = False"

fun result_of :: "fc_pc \<Rightarrow> keypair option" where
  "result_of (FC_L73 kp) = Some kp"
| "result_of (FC_Return (FcOk kp)) = Some kp"
| "result_of (FC_Done (FcOk kp)) = Some kp"
| "result_of p = None"

fun has_signed :: "fc_pc \<Rightarrow> bool" where
  "has_signed (FC_L94 c) = True"
| "has_signed (FC_L100 kp) = True"
| "has_signed (FC_Return (FcErr e)) = True"
| "has_signed (FC_Done (FcErr e)) = True"
| "has_signed p = False"

fun is_failed :: "fc_pc \<Rightarrow> bool" where
  "is_failed (FC_Return (FcErr e)) = True"
| "is_failed (FC_Done (FcErr e)) = True"
| "is_failed p = False"

fun is_bad :: "fc_pc \<Rightarrow> bool" where
  "is_bad (FC_Return (FcErr e)) = True"
| "is_bad (FC_Return FcPanic) = True"
| "is_bad (FC_Done (FcErr e)) = True"
| "is_bad (FC_Done FcPanic) = True"
| "is_bad p = False"

definition tally :: "(fc_pc \<Rightarrow> bool) \<Rightarrow> string \<Rightarrow> string list \<Rightarrow> fc_pc list \<Rightarrow> nat" where
  "tally P h names ps = length (filter (\<lambda>(n, p). n = h \<and> P p) (zip names ps))"

definition failures :: "string \<Rightarrow> string list \<Rightarrow> fc_pc list \<Rightarrow> nat" where
  "failures h names ps = tally is_failed h names ps"

text \<open>A call holds the mutex exactly from line 78 to its return.\<close>

definition mutex_inv :: "fc_state \<Rightarrow> bool" where
  "mutex_inv s =
     ((\<forall>i < length (pcs s). in_cs (pcs s ! i) = (certMutex s = Some i))
      \<and> (\<forall>j. certMutex s = Some j \<longrightarrow> j < length (pcs s)))"

text \<open>
  Where a window of memoization for the host \<open>h\<close> begins: any state of the calls
  \<open>names\<close> in which every call for \<open>h\<close> is at line 71, 76 or 78, so that it has
  neither found nor begun to make a key pair. What the cache holds, where the calls for
  other hosts stand and which call holds the mutex is left open.
\<close>

definition window_start :: "string \<Rightarrow> string list \<Rightarrow> fc_state \<Rightarrow> bool" where
  "window_start h names s =
     (length (pcs s) = length names
      \<and> mutex_inv s
      \<and> (\<forall>i < length names. names ! i = h \<longrightarrow> before_lookup (pcs s ! i)))"

text \<open>Whether the cache has an unexpired entry for \<open>h\<close>.\<close>

definition live_entry :: "string \<Rightarrow> fc_state \<Rightarrow> bool" where
  "live_entry h s =
     (case dynamicCerts s h of
        None \<Rightarrow> False
      | Some e \<Rightarrow> clock s < expiration e)"

text \<open>
  A run is within the cache TTL for \<open>h\<close> when the entry of the cache for \<open>h\<close> does
  not expire in it: in every state of the run, the entry for \<open>h\<close>, if there is one, is
  unexpired or had expired before the run began at \<open>t0\<close>. So the entry the run begins
  with runs to the end of its TTL at most, and so does the entry the first call makes.
\<close>

definition unexpired :: "string \<Rightarrow> time \<Rightarrow> fc_state \<Rightarrow> bool" where
  "unexpired h t0 s =
     (case dynamicCerts s h of
        None \<Rightarrow> True
      | Some e \<Rightarrow> expiration e \<le> t0 \<or> clock s < expiration e)"

fun within_ttl ::
  "string \<Rightarrow> time \<Rightarrow> cert_env \<Rightarrow> handler_wrapper \<Rightarrow> string list \<Rightarrow> action list \<Rightarrow> fc_state \<Rightarrow> bool" where
  "within_ttl h t0 env hw names [] s = unexpired h t0 s"
| "within_ttl h t0 env hw names (a # as) s =
     (unexpired h t0 s \<and> within_ttl h t0 env hw names as (fc_act env hw names a s))"

text \<open>
  An instant before which no run from the state \<open>s\<close> leaves the cache TTL: the TTL
  after \<open>s\<close> and, when the cache has an unexpired entry for \<open>h\<close>, no later than that
  entry expires.
\<close>

definition window_end :: "string \<Rightarrow> fc_state \<Rightarrow> time" where
  "window_end h s =
     (case dynamicCerts s h of
        None \<Rightarrow> clock s + (TWO_WEEKS - ONE_DAY)
      | Some e \<Rightarrow>
          if clock s < expiration e then min (expiration e) (clock s + (TWO_WEEKS - ONE_DAY))
          else clock s + (TWO_WEEKS - ONE_DAY))"

text \<open>Signing and parsing never fail and there is a private key.\<close>

definition no_failure :: "cert_env \<Rightarrow> handler_wrapper \<Rightarrow> bool" where
  "no_failure env hw =
     (pk hw \<noteq> None \<and> (\<forall>k. \<exists>n. signRes env k = Signed n) \<and> (\<forall>k. parseErr env k = None))"

text \<open>
  The key pair of the entry that counts in the run begun at \<open>t0\<close>: the entry that was
  unexpired then, or the one made in the run. Any other entry had expired by \<open>t0\<close>.
\<close>

definition fresh :: "time \<Rightarrow> cache_entry option \<Rightarrow> keypair option" where
  "fresh t0 ce =
     (case ce of
        None \<Rightarrow> None
      | Some e \<Rightarrow> if t0 < expiration e then Some (entryData e) else None)"

text \<open>
  The invariant behind memoization, for a host \<open>h\<close> and a run begun at \<open>t0\<close>;
  \<open>n0\<close> counts the signing operations for \<open>h\<close> before the run, and \<open>b0\<close> is one
  when the cache had an unexpired entry for \<open>h\<close> at the start. While a call for \<open>h\<close>
  is between the second lookup and the insertion the cache has no entry for \<open>h\<close> that
  counts; every key pair returned for \<open>h\<close> is the one of that entry; and the signing
  operations for \<open>h\<close> in the run are those of the calls that have signed and not yet
  inserted or have failed, and one more once an entry made in the run is there.
\<close>

definition memo_inv ::
  "string \<Rightarrow> time \<Rightarrow> nat \<Rightarrow> nat \<Rightarrow> string list \<Rightarrow> fc_state \<Rightarrow> bool" where
  "memo_inv h t0 b0 n0 names s =
     (length (pcs s) = length names
      \<and> mutex_inv s
      \<and> t0 \<le> clock s
      \<and> (\<forall>i < length names. names ! i = h \<and> in_mint (pcs s ! i)
            \<longrightarrow> fresh t0 (dynamicCerts s h) = None)
      \<and> (\<forall>i < length names. \<forall>kp. names ! i = h \<and> result_of (pcs s ! i) = Some kp
            \<longrightarrow> fresh t0 (dynamicCerts s h) = Some kp)
      \<and> count_list (signOps s) h + b0
          = n0 + tally has_signed h names (pcs s)
            + (if fresh t0 (dynamicCerts s h) = None then 0 else 1))"

subsection \<open>Concrete inputs for the certificate functions\<close>

text \<open>
  \<^verbatim>\<open>AddDate\<close> as it is for a clock in UTC on the instants of April 1970, which begins
  ninety days after the epoch: a month later is 30 days later and a year later 365 days
  later. With it, a start of the proxy on the first of April 1970 that finds a stored
  issuing certificate with ten days left, and a configuration without subject fields.
\<close>

definition april_addDate :: "int \<Rightarrow> int \<Rightarrow> int \<Rightarrow> time \<Rightarrow> time" where
  "april_addDate y m d t = t + (y * 365 + m * 30 + d) * ONE_DAY"

definition example_key :: private_key where
  "example_key = \<lparr>keyBits = 2048, keyId = 7\<rparr>"

definition stale_ca_env :: ca_env where
  "stale_ca_env =
     \<lparr>caVersion = ''1.0'',
      loadPK = Inr example_key,
      generatePK = Inl ''not called'',
      writePKErr = None,
      loadCert = Inr \<lparr>subjectOrg = ''gomitmproxy1.0'', subjectCN = ''gomitmproxy'',
                     notAfter = 100 * ONE_DAY, isCA = True, issuerCN = None, serial = 1\<rparr>,
      now54 = 90 * ONE_DAY, now58 = 90 * ONE_DAY + 5, selfSign = Signed 2, writeCertErr = None,
      addDate = april_addDate\<rparr>"

definition example_config :: tls_config where
  "example_config =
     \<lparr>organization = [], commonName = [], privateKeyFile = ''pk.pem'', certFile = ''cert.pem''\<rparr>"

definition empty_wrapper :: handler_wrapper where
  "empty_wrapper =
     \<lparr>tlsConfig = example_config, pk = None, pkPem = None, issuingCert = None,
      issuingCertPem = None\<rparr>"

text \<open>
  A stored issuing certificate that expires one second after the beginning of May 1970,
  and a start of the proxy whose reading of the clock at line 54 is one microsecond
  before the end of the first second of April: one month after that reading the
  certificate has one microsecond left.
\<close>

definition kept_cert :: certificate where
  "kept_cert =
     \<lparr>subjectOrg = ''gomitmproxy1.0'', subjectCN = ''gomitmproxy'',
      notAfter = 120 * ONE_DAY + ONE_SECOND, isCA = True, issuerCN = None, serial = 1\<rparr>"

definition kept_ca_env :: ca_env where
  "kept_ca_env =
     \<lparr>caVersion = ''1.0'',
      loadPK = Inr example_key,
      generatePK = Inl ''not called'',
      writePKErr = None,
      loadCert = Inr kept_cert,
      now54 = 90 * ONE_DAY + 999999000, now58 = 90 * ONE_DAY + 999999000, selfSign = Signed 2,
      writeCertErr = None,
      addDate = april_addDate\<rparr>"

text \<open>
  A wrapper as \<^verbatim>\<open>InitConfig\<close> leaves it, an environment in which signing and parsing
  succeed (the \<open>k\<close>-th certificate gets serial \<open>k\<close>), and two calls for one host.
\<close>

definition example_ca :: certificate where
  "example_ca =
     \<lparr>subjectOrg = ''gomitmproxy1.0'', subjectCN = ''gomitmproxy'', notAfter = 365 * ONE_DAY,
      isCA = True, issuerCN = None, serial = 1\<rparr>"

definition example_wrapper :: handler_wrapper where
  "example_wrapper =
     \<lparr>tlsConfig = \<lparr>organization = ''gomitmproxy1.0'', commonName = ''gomitmproxy'',
                   privateKeyFile = ''pk.pem'', certFile = ''cert.pem''\<rparr>,
      pk = Some example_key, pkPem = Some (KeyPEM example_key),
      issuingCert = Some example_ca, issuingCertPem = Some (CertPEM example_ca)\<rparr>"

definition ok_cert_env :: cert_env where
  "ok_cert_env = \<lparr>signRes = Signed, parseErr = (\<lambda>k. None)\<rparr>"

definition two_calls :: "string list" where
  "two_calls = [''example.test'', ''example.test'']"

text \<open>
  The key pair the first signing for \<open>example.test\<close> yields when the clock reads less
  than one second.
\<close>

definition first_keypair :: keypair where
  "first_keypair =
     \<lparr>leaf = \<lparr>subjectOrg = ''gomitmproxy1.0'', subjectCN = ''example.test'',
              notAfter = TWO_WEEKS, isCA = False, issuerCN = Some ''gomitmproxy'', serial = 0\<rparr>,
      privKeyPem = Some (KeyPEM example_key)\<rparr>"

text \<open>
  Call 0 runs alone and call 1 looks the host up shortly before the entry expires. In
  \<open>slow_mint\<close> the clock starts at \<open>0\<close>, one second passes between the signing and
  the insertion into the cache, and the lookup comes half a second before thirteen days
  and one second. In \<open>prompt_mint\<close> no time passes within a call; the schedule is run
  from a clock that reads three tenths of a second, and the lookup comes one nanosecond
  before the entry expires.
\<close>

definition slow_mint :: "action list" where
  "slow_mint =
     [Step 0, Step 0, Step 0, Step 0, Tick 1000000000, Step 0, Step 0, Step 0,
      Tick (13 * ONE_DAY - 500000000), Step 1]"

definition prompt_mint :: "action list" where
  "prompt_mint =
     [Step 0, Step 0, Step 0, Step 0, Step 0, Step 0, Step 0, Tick (13 * ONE_DAY - 1), Step 1]"

text \<open>
  The proxy twenty days after a first leaf for \<open>example.test\<close> was made: its entry
  expired a week ago and is still in the cache; two new calls for the host are about to
  begin. \<open>second_keypair\<close> is the key pair the next signing yields then.
\<close>

definition old_keypair :: keypair where
  "old_keypair =
     \<lparr>leaf = \<lparr>subjectOrg = ''gomitmproxy1.0'', subjectCN = ''example.test'',
              notAfter = TWO_WEEKS, isCA = False, issuerCN = Some ''gomitmproxy'', serial = 0\<rparr>,
      privKeyPem = Some (KeyPEM example_key)\<rparr>"

definition second_keypair :: keypair where
  "second_keypair =
     \<lparr>leaf = \<lparr>subjectOrg = ''gomitmproxy1.0'', subjectCN = ''example.test'',
              notAfter = 34 * ONE_DAY, isCA = False, issuerCN = Some ''gomitmproxy'', serial = 1\<rparr>,
      privKeyPem = Some (KeyPEM example_key)\<rparr>"

definition later_start :: fc_state where
  "later_start =
     \<lparr>clock = 20 * ONE_DAY,
      dynamicCerts = NewCache(''example.test'' \<mapsto> \<lparr>entryData = old_keypair, expiration = 13 * ONE_DAY\<rparr>),
      certMutex = None, pcs = [FC_L71, FC_L71], signOps = [''example.test''],
      readAt = (\<lambda>i. 0)\<rparr>"

text \<open>
  Two calls racing: both miss at line 71, call 1 takes the mutex and mints while call 0
  waits at line 76 until call 1 has returned, then call 0 finds the entry at line 78.
\<close>

definition racing :: "action list" where
  "racing =
     [Step 0, Step 1, Step 1, Step 0, Step 1, Step 1, Tick 1000000000, Step 1, Step 1,
      Step 0, Step 1, Step 0, Tick 86400000000000, Step 0, Step 0]"


section \<open>Properties\<close>

lemma client_bytes_append: "client_bytes (xs @ ys) = client_bytes xs @ client_bytes ys"
  by (induction xs rule: client_bytes.induct) simp_all

subsection \<open>The relay without an upstream response\<close>

lemma relay_tail_none:
  "fst (readRes env) = None \<Longrightarrow> relay_tail env req = ([LogLine ''respOut is nil''], Returned)"
  by (simp add: relay_tail_def)

lemma silent_simps:
  "silent []"
  "silent (e # es) = (\<not> is_ConnInWrite e \<and> e \<noteq> CallFilter \<and> e \<noteq> GoHttpDump \<and> silent es)"
  "silent (xs @ ys) = (silent xs \<and> silent ys)"
    apply (simp add: silent_def)
   apply (cases e; auto simp add: silent_def)
  apply (auto simp add: silent_def client_bytes_append)
  done

lemma silent_prologue: "silent (relay_prologue env)"
  by (simp add: relay_prologue_def silent_simps split: option.splits)

lemma silent_read_log: "silent (read_log env)"
  by (simp add: read_log_def silent_simps split: option.splits)

lemma relay_body_no_response:
  assumes "fst (readRes env) = None"
  shows "silent (fst (relay_body env https req))
       \<and> (dialErr env = None \<and> reqWriteErr env = None \<longrightarrow>
            snd (relay_body env https req) = Returned
          \<and> (\<exists>pre. fst (relay_body env https req) = pre @ [LogLine ''respOut is nil'']))"
  using assms silent_read_log [of env]
  by (cases "dialErr env"; cases "reqWriteErr env"; cases https)
     (simp_all add: relay_body_def relay_tail_none silent_simps)

text \<open>
  C10. When \<^verbatim>\<open>http.ReadResponse\<close> yields a nil response, \<^verbatim>\<open>DumpHTTPAndHTTPs\<close> hands
  no bytes to the client socket, never calls the observer \<^verbatim>\<open>filter\<close> and never starts
  the monitor dump; and when hijack, dial and request write succeeded it logs
  \<^verbatim>\<open>respOut is nil\<close> and returns, the deferred close being its last effect.
\<close>

theorem relay_no_response:
  assumes "fst (readRes env) = None"
  shows "client_bytes (fst (DumpHTTPAndHTTPs env https req)) = []
       \<and> \<not> list_ex is_ConnInWrite (fst (DumpHTTPAndHTTPs env https req))
       \<and> CallFilter \<notin> set (fst (DumpHTTPAndHTTPs env https req))
       \<and> GoHttpDump \<notin> set (fst (DumpHTTPAndHTTPs env https req))
       \<and> (hijackErr env = None \<and> dialErr env = None \<and> reqWriteErr env = None \<longrightarrow>
            snd (DumpHTTPAndHTTPs env https req) = Returned
          \<and> (\<exists>pre. fst (DumpHTTPAndHTTPs env https req) =
                 pre @ [LogLine ''respOut is nil'', ConnInClose]))"
proof -
  let ?req = "req\<lparr>reqHeader := header_Set ''Connection'' ''Keep-Alive''
        (header_Del ''Proxy-Connection'' (reqHeader req))\<rparr>"
  have body: "silent (fst (relay_body env https ?req))"
    "dialErr env = None \<and> reqWriteErr env = None \<longrightarrow>
            snd (relay_body env https ?req) = Returned
          \<and> (\<exists>pre. fst (relay_body env https ?req) = pre @ [LogLine ''respOut is nil''])"
    using relay_body_no_response [OF assms, of https ?req] by simp_all
  have sil: "silent (fst (DumpHTTPAndHTTPs env https req))"
    using body(1) silent_prologue [of env]
    by (cases "hijackErr env")
       (simp_all add: DumpHTTPAndHTTPs_def silent_simps split_beta Let_def)
  have fin: "snd (DumpHTTPAndHTTPs env https req) = Returned
          \<and> (\<exists>pre. fst (DumpHTTPAndHTTPs env https req) =
                 pre @ [LogLine ''respOut is nil'', ConnInClose])"
    if ok: "hijackErr env = None" "dialErr env = None" "reqWriteErr env = None"
  proof -
    obtain pre where pre: "fst (relay_body env https ?req) = pre @ [LogLine ''respOut is nil'']"
      and ret: "snd (relay_body env https ?req) = Returned"
      using body(2) ok by blast
    have "fst (DumpHTTPAndHTTPs env https req)
        = (relay_prologue env @ pre) @ [LogLine ''respOut is nil'', ConnInClose]"
      using ok(1) pre by (simp add: DumpHTTPAndHTTPs_def split_beta Let_def)
    moreover have "snd (DumpHTTPAndHTTPs env https req) = Returned"
      using ok(1) ret by (simp add: DumpHTTPAndHTTPs_def split_beta Let_def)
    ultimately show ?thesis by blast
  qed
  show ?thesis using sil fin by (simp add: silent_def)
qed

theorem relay_no_response_witness:
  "fst (readRes (ok_relay_env\<lparr>readRes := (None, Some ''unexpected EOF'')\<rparr>)) = None
   \<and> hijackErr (ok_relay_env\<lparr>readRes := (None, Some ''unexpected EOF'')\<rparr>) = None
   \<and> snd (DumpHTTPAndHTTPs (ok_relay_env\<lparr>readRes := (None, Some ''unexpected EOF'')\<rparr>)
            True example_request) = Returned
   \<and> CallFilter \<notin> set (fst (DumpHTTPAndHTTPs
            (ok_relay_env\<lparr>readRes := (None, Some ''unexpected EOF'')\<rparr>) True example_request))
   \<and> client_bytes (fst (DumpHTTPAndHTTPs
            (ok_relay_env\<lparr>readRes := (None, Some ''unexpected EOF'')\<rparr>) True example_request)) = []"
  using relay_no_response [of "ok_relay_env\<lparr>readRes := (None, Some ''unexpected EOF'')\<rparr>"
      True example_request]
  by (simp add: ok_relay_env_def)

subsection \<open>The observer cannot change what the client receives\<close>

lemma filter_hw_shape:
  "\<exists>rest. filter_hw oe r req = CallFilter # rest \<and> CallFilter \<notin> set rest
      \<and> client_bytes rest = [] \<and> filter is_ConnInWrite rest = []"
  by (simp add: filter_hw_def split: option.splits sum.splits do_outcome.splits)

lemma quiet_simps:
  "quiet []"
  "quiet (e # es) = (\<not> is_ConnInWrite e \<and> e \<noteq> CallFilter \<and> quiet es)"
  "quiet (xs @ ys) = (quiet xs \<and> quiet ys)"
    apply (simp add: quiet_def)
   apply (cases e; auto simp add: quiet_def)
  apply (auto simp add: quiet_def client_bytes_append)
  done

lemma quiet_prologue: "quiet (relay_prologue env)"
  by (simp add: relay_prologue_def quiet_simps split: option.splits)

lemma quiet_read_log: "quiet (read_log env)"
  by (simp add: read_log_def quiet_simps split: option.splits)

lemma relay_tail_some:
  assumes "fst (readRes env) = Some r"
  shows "\<exists>pre post rest.
           relay_tail env req =
             (pre @ ConnInWrite (case dumpRespErr env of Some e \<Rightarrow> [] | None \<Rightarrow> respWire r)
                # post @ CallFilter # rest, Returned)
         \<and> quiet pre \<and> quiet post \<and> quiet rest"
proof -
  obtain rest where rest: "filter_hw (observer env) r req = CallFilter # rest" "quiet rest"
    using filter_hw_shape unfolding quiet_def by blast
  let ?pre = "[DumpResponse] @
     (case dumpRespErr env of Some e \<Rightarrow> [LogLine ''respDump error:''] | None \<Rightarrow> [])"
  let ?post = "(case connWriteErr env of Some e \<Rightarrow> [LogLine ''connIn write error:'']
               | None \<Rightarrow> [])"
  let ?end = "(if monitor env then [RecvCh, GoHttpDump] else [RecvCh])"
  let ?b = "(case dumpRespErr env of Some e \<Rightarrow> [] | None \<Rightarrow> respWire r)"
  have "relay_tail env req = (?pre @ ConnInWrite ?b # ?post @ CallFilter # (rest @ ?end), Returned)"
    using assms rest(1) by (simp add: relay_tail_def)
  moreover have "quiet ?pre" "quiet ?post" "quiet (rest @ ?end)"
    using rest(2) by (simp_all add: quiet_simps split: option.splits)
  ultimately show ?thesis by blast
qed

text \<open>The four ways a relay run goes.\<close>

lemma relay_run:
  "\<exists>pre. quiet pre \<and>
     ((\<not> relayed env \<and> DumpHTTPAndHTTPs env https req =
         (pre, if hijackErr env \<noteq> None \<or> (https \<and> dialErr env \<noteq> None) then Panicked else Returned))
      \<or> (\<exists>r post rest. relayed env \<and> fst (readRes env) = Some r \<and> quiet post \<and> quiet rest \<and>
          DumpHTTPAndHTTPs env https req =
            (pre @ ConnInWrite (case dumpRespErr env of Some e \<Rightarrow> [] | None \<Rightarrow> respWire r)
               # post @ CallFilter # rest, Returned)))"
proof -
  let ?req = "req\<lparr>reqHeader := header_Set ''Connection'' ''Keep-Alive''
        (header_Del ''Proxy-Connection'' (reqHeader req))\<rparr>"
  note q = quiet_simps quiet_prologue quiet_read_log
  consider (hij) e where "hijackErr env = Some e"
    | (dial) e where "hijackErr env = None" "dialErr env = Some e"
    | (wr) e where "hijackErr env = None" "dialErr env = None" "reqWriteErr env = Some e"
    | (nores) "hijackErr env = None" "dialErr env = None" "reqWriteErr env = None" "fst (readRes env) = None"
    | (res) r where "hijackErr env = None" "dialErr env = None" "reqWriteErr env = None" "fst (readRes env) = Some r"
    by (cases "hijackErr env"; cases "dialErr env"; cases "reqWriteErr env"; cases "fst (readRes env)"; auto)
  then show ?thesis
  proof cases
    case hij
    have "DumpHTTPAndHTTPs env https req = (relay_prologue env @ [LogLine ''hijack error:'', PanicEv], Panicked)"
      using hij by (simp add: DumpHTTPAndHTTPs_def)
    moreover have "quiet (relay_prologue env @ [LogLine ''hijack error:'', PanicEv])" by (simp add: q)
    ultimately show ?thesis using hij by (auto simp add: relayed_def)
  next
    case dial
    have "DumpHTTPAndHTTPs env https req =
       (relay_prologue env @ (if https then [DialTLS (dial_host https (reqHost req)), LogLine ''tls dial to'', PanicEv]
           else [DialTCP (dial_host https (reqHost req)), LogLine ''dial to'']) @ [ConnInClose],
        if https then Panicked else Returned)"
      using dial by (simp add: DumpHTTPAndHTTPs_def relay_body_def)
    moreover have "quiet (relay_prologue env @ (if https then [DialTLS (dial_host https (reqHost req)), LogLine ''tls dial to'', PanicEv]
           else [DialTCP (dial_host https (reqHost req)), LogLine ''dial to'']) @ [ConnInClose])"
      by (simp add: q)
    ultimately show ?thesis using dial by (auto simp add: relayed_def)
  next
    case wr
    have "DumpHTTPAndHTTPs env https req =
       (relay_prologue env @ [if https then DialTLS (dial_host https (reqHost req)) else DialTCP (dial_host https (reqHost req)),
           ReqWrite ?req, LogLine ''send to server error'', ConnInClose], Returned)"
      using wr by (simp add: DumpHTTPAndHTTPs_def relay_body_def)
    moreover have "quiet (relay_prologue env @ [if https then DialTLS (dial_host https (reqHost req)) else DialTCP (dial_host https (reqHost req)),
           ReqWrite ?req, LogLine ''send to server error'', ConnInClose])"
      by (simp add: q)
    ultimately show ?thesis using wr by (auto simp add: relayed_def)
  next
    case nores
    have "DumpHTTPAndHTTPs env https req =
       (relay_prologue env @ [if https then DialTLS (dial_host https (reqHost req)) else DialTCP (dial_host https (reqHost req)),
           ReqWrite ?req, ReadResponse] @ read_log env @ [LogLine ''respOut is nil'', ConnInClose], Returned)"
      using nores by (simp add: DumpHTTPAndHTTPs_def relay_body_def relay_tail_none)
    moreover have "quiet (relay_prologue env @ [if https then DialTLS (dial_host https (reqHost req)) else DialTCP (dial_host https (reqHost req)),
           ReqWrite ?req, ReadResponse] @ read_log env @ [LogLine ''respOut is nil'', ConnInClose])"
      by (simp add: q)
    ultimately show ?thesis using nores by (auto simp add: relayed_def)
  next
    case res
    obtain pre post rest where tl:
      "relay_tail env ?req =
             (pre @ ConnInWrite (case dumpRespErr env of Some e \<Rightarrow> [] | None \<Rightarrow> respWire r)
                # post @ CallFilter # rest, Returned)" "quiet pre" "quiet post" "quiet rest"
      using relay_tail_some [OF res(4)] by blast
    let ?p = "relay_prologue env @ [if https then DialTLS (dial_host https (reqHost req)) else DialTCP (dial_host https (reqHost req)),
           ReqWrite ?req, ReadResponse] @ read_log env @ pre"
    have "DumpHTTPAndHTTPs env https req =
       (?p @ ConnInWrite (case dumpRespErr env of Some e \<Rightarrow> [] | None \<Rightarrow> respWire r)
                # post @ CallFilter # (rest @ [ConnInClose]), Returned)"
      using res tl(1) by (simp add: DumpHTTPAndHTTPs_def relay_body_def)
    moreover have "quiet ?p" "quiet (rest @ [ConnInClose])" using tl by (simp_all add: q)
    moreover have "relayed env" using res by (simp add: relayed_def)
    ultimately show ?thesis using res(4) tl(3) by blast
  qed
qed

lemma relay_summary:
  "client_bytes (fst (DumpHTTPAndHTTPs env https req)) = relayed_bytes env
   \<and> count_list (fst (DumpHTTPAndHTTPs env https req)) CallFilter = (if relayed env then 1 else 0)
   \<and> length (filter is_ConnInWrite (fst (DumpHTTPAndHTTPs env https req)))
       = (if relayed env then 1 else 0)
   \<and> client_bytes (takeWhile (\<lambda>e. e \<noteq> CallFilter) (fst (DumpHTTPAndHTTPs env https req)))
       = relayed_bytes env
   \<and> snd (DumpHTTPAndHTTPs env https req)
       = (if hijackErr env \<noteq> None \<or> (https \<and> dialErr env \<noteq> None) then Panicked else Returned)"
proof -
  obtain pre where pre: "quiet pre"
    "(\<not> relayed env \<and> DumpHTTPAndHTTPs env https req =
         (pre, if hijackErr env \<noteq> None \<or> (https \<and> dialErr env \<noteq> None) then Panicked else Returned))
      \<or> (\<exists>r post rest. relayed env \<and> fst (readRes env) = Some r \<and> quiet post \<and> quiet rest \<and>
          DumpHTTPAndHTTPs env https req =
            (pre @ ConnInWrite (case dumpRespErr env of Some e \<Rightarrow> [] | None \<Rightarrow> respWire r)
               # post @ CallFilter # rest, Returned))"
    using relay_run by blast
  from pre(2) show ?thesis
  proof
    assume a: "\<not> relayed env \<and> DumpHTTPAndHTTPs env https req =
         (pre, if hijackErr env \<noteq> None \<or> (https \<and> dialErr env \<noteq> None) then Panicked else Returned)"
    have tw: "takeWhile (\<lambda>e. e \<noteq> CallFilter) pre = pre"
      using pre(1) by (auto simp add: quiet_def takeWhile_eq_all_conv)
    have rb: "relayed_bytes env = []" using a by (simp add: relayed_bytes_def split: option.splits)
    show ?thesis using a pre(1) rb by (simp add: quiet_def tw)
  next
    assume "\<exists>r post rest. relayed env \<and> fst (readRes env) = Some r \<and> quiet post \<and> quiet rest \<and>
          DumpHTTPAndHTTPs env https req =
            (pre @ ConnInWrite (case dumpRespErr env of Some e \<Rightarrow> [] | None \<Rightarrow> respWire r)
               # post @ CallFilter # rest, Returned)"
    then obtain r post rest where b: "relayed env" "fst (readRes env) = Some r" "quiet post" "quiet rest"
       "DumpHTTPAndHTTPs env https req =
            (pre @ ConnInWrite (case dumpRespErr env of Some e \<Rightarrow> [] | None \<Rightarrow> respWire r)
               # post @ CallFilter # rest, Returned)" by blast
    let ?b = "(case dumpRespErr env of Some e \<Rightarrow> [] | None \<Rightarrow> respWire r)"
    have q: "quiet (pre @ ConnInWrite ?b # post) = False" by (simp add: quiet_simps)
    have tw: "takeWhile (\<lambda>e. e \<noteq> CallFilter) (pre @ ConnInWrite ?b # post @ CallFilter # rest)
        = pre @ ConnInWrite ?b # post"
      using pre(1) b(3) by (auto simp add: quiet_def takeWhile_append takeWhile_tail)
    have rb: "relayed_bytes env = ?b" using b by (simp add: relayed_bytes_def split: option.splits)
    have out: "hijackErr env = None \<and> dialErr env = None" using b(1) by (simp add: relayed_def)
    show ?thesis using b pre(1) rb out by (simp add: quiet_def client_bytes_append tw)
  qed
qed

lemma writes_before_observer:
  "filter is_ConnInWrite (takeWhile (\<lambda>e. e \<noteq> CallFilter) (fst (DumpHTTPAndHTTPs env https req)))
     = filter is_ConnInWrite (fst (DumpHTTPAndHTTPs env https req))"
proof -
  obtain pre where pre: "quiet pre"
    "(\<not> relayed env \<and> DumpHTTPAndHTTPs env https req =
         (pre, if hijackErr env \<noteq> None \<or> (https \<and> dialErr env \<noteq> None) then Panicked else Returned))
      \<or> (\<exists>r post rest. relayed env \<and> fst (readRes env) = Some r \<and> quiet post \<and> quiet rest \<and>
          DumpHTTPAndHTTPs env https req =
            (pre @ ConnInWrite (case dumpRespErr env of Some e \<Rightarrow> [] | None \<Rightarrow> respWire r)
               # post @ CallFilter # rest, Returned))"
    using relay_run by blast
  from pre(2) show ?thesis
  proof
    assume a: "\<not> relayed env \<and> DumpHTTPAndHTTPs env https req =
         (pre, if hijackErr env \<noteq> None \<or> (https \<and> dialErr env \<noteq> None) then Panicked else Returned)"
    have tw: "takeWhile (\<lambda>e. e \<noteq> CallFilter) pre = pre"
      using pre(1) by (auto simp add: quiet_def takeWhile_eq_all_conv)
    show ?thesis using a by (simp add: tw)
  next
    assume "\<exists>r post rest. relayed env \<and> fst (readRes env) = Some r \<and> quiet post \<and> quiet rest \<and>
          DumpHTTPAndHTTPs env https req =
            (pre @ ConnInWrite (case dumpRespErr env of Some e \<Rightarrow> [] | None \<Rightarrow> respWire r)
               # post @ CallFilter # rest, Returned)"
    then obtain r post rest where b: "relayed env" "fst (readRes env) = Some r" "quiet post"
       "quiet rest"
       "DumpHTTPAndHTTPs env https req =
            (pre @ ConnInWrite (case dumpRespErr env of Some e \<Rightarrow> [] | None \<Rightarrow> respWire r)
               # post @ CallFilter # rest, Returned)" by blast
    let ?b = "(case dumpRespErr env of Some e \<Rightarrow> [] | None \<Rightarrow> respWire r)"
    have tw: "takeWhile (\<lambda>e. e \<noteq> CallFilter) (pre @ ConnInWrite ?b # post @ CallFilter # rest)
        = pre @ ConnInWrite ?b # post"
      using pre(1) b(3) by (auto simp add: quiet_def takeWhile_append takeWhile_tail)
    show ?thesis using b(4,5) pre(1) by (simp add: quiet_def tw)
  qed
qed

text \<open>
  C9, as amended. The observer is isolated: with any other observer outcomes \<open>oe\<close> and
  any other request URI \<open>u\<close> (so whether the observer succeeds, fails or is not
  triggered) the same bytes reach the client and the relay ends the same way.
  \<^verbatim>\<open>filter\<close> is called at most once, exactly when an upstream response was obtained,
  as often as the handler calls \<^verbatim>\<open>connIn.Write\<close>, and after that call: no write to the
  client socket follows the observer, and what has reached the client before the observer
  is called is all that reaches it. When \<^verbatim>\<open>httputil.DumpResponse\<close> and the write
  succeeded that is the wire form of the response; otherwise it is what the failed write
  had written, or nothing after a failed dump.
\<close>

theorem observer_isolated:
  "received (env\<lparr>observer := oe\<rparr>)
       (fst (DumpHTTPAndHTTPs (env\<lparr>observer := oe\<rparr>) https (req\<lparr>reqRequestURI := u\<rparr>)))
     = received env (fst (DumpHTTPAndHTTPs env https req))
   \<and> snd (DumpHTTPAndHTTPs (env\<lparr>observer := oe\<rparr>) https (req\<lparr>reqRequestURI := u\<rparr>))
     = snd (DumpHTTPAndHTTPs env https req)
   \<and> count_list (fst (DumpHTTPAndHTTPs env https req)) CallFilter = (if relayed env then 1 else 0)
   \<and> length (filter is_ConnInWrite (fst (DumpHTTPAndHTTPs env https req)))
     = count_list (fst (DumpHTTPAndHTTPs env https req)) CallFilter
   \<and> filter is_ConnInWrite (takeWhile (\<lambda>e. e \<noteq> CallFilter) (fst (DumpHTTPAndHTTPs env https req)))
     = filter is_ConnInWrite (fst (DumpHTTPAndHTTPs env https req))
   \<and> received env (takeWhile (\<lambda>e. e \<noteq> CallFilter) (fst (DumpHTTPAndHTTPs env https req)))
     = received env (fst (DumpHTTPAndHTTPs env https req))
   \<and> received env (fst (DumpHTTPAndHTTPs env https req))
     = (case connWriteErr env of
          None \<Rightarrow> relayed_bytes env
        | Some (n, e) \<Rightarrow> take n (relayed_bytes env))"
proof -
  have same: "relayed_bytes (env\<lparr>observer := oe\<rparr>) = relayed_bytes env"
    by (simp add: relayed_bytes_def relayed_def split: option.splits)
  have iso: "client_bytes (fst (DumpHTTPAndHTTPs (env\<lparr>observer := oe\<rparr>) https
                 (req\<lparr>reqRequestURI := u\<rparr>)))
           = client_bytes (fst (DumpHTTPAndHTTPs env https req))"
    and out: "snd (DumpHTTPAndHTTPs (env\<lparr>observer := oe\<rparr>) https (req\<lparr>reqRequestURI := u\<rparr>))
           = snd (DumpHTTPAndHTTPs env https req)"
    using relay_summary [of env https req]
      relay_summary [of "env\<lparr>observer := oe\<rparr>" https "req\<lparr>reqRequestURI := u\<rparr>"]
    by (simp_all add: same)
  have a: "received (env\<lparr>observer := oe\<rparr>)
       (fst (DumpHTTPAndHTTPs (env\<lparr>observer := oe\<rparr>) https (req\<lparr>reqRequestURI := u\<rparr>)))
     = received env (fst (DumpHTTPAndHTTPs env https req))"
    unfolding received_def iso by simp
  have b: "count_list (fst (DumpHTTPAndHTTPs env https req)) CallFilter = (if relayed env then 1 else 0)"
    and c: "length (filter is_ConnInWrite (fst (DumpHTTPAndHTTPs env https req)))
     = count_list (fst (DumpHTTPAndHTTPs env https req)) CallFilter"
    and d: "client_bytes (takeWhile (\<lambda>e. e \<noteq> CallFilter) (fst (DumpHTTPAndHTTPs env https req)))
     = client_bytes (fst (DumpHTTPAndHTTPs env https req))"
    and e: "client_bytes (fst (DumpHTTPAndHTTPs env https req)) = relayed_bytes env"
    using relay_summary [of env https req] by simp_all
  have f: "filter is_ConnInWrite (takeWhile (\<lambda>e. e \<noteq> CallFilter) (fst (DumpHTTPAndHTTPs env https req)))
     = filter is_ConnInWrite (fst (DumpHTTPAndHTTPs env https req))"
    by (rule writes_before_observer)
  have g: "received env (takeWhile (\<lambda>e. e \<noteq> CallFilter) (fst (DumpHTTPAndHTTPs env https req)))
     = received env (fst (DumpHTTPAndHTTPs env https req))"
    unfolding received_def d by simp
  have h: "received env (fst (DumpHTTPAndHTTPs env https req))
     = (case connWriteErr env of
          None \<Rightarrow> relayed_bytes env
        | Some (n, e) \<Rightarrow> take n (relayed_bytes env))"
    unfolding received_def e by simp
  show ?thesis using a out b c f g h by blast
qed

text \<open>
  An observer whose \<^verbatim>\<open>POST\<close> fails, on a request that triggers it: the error is logged
  and the client receives the response all the same.
\<close>

theorem observer_isolated_witness:
  "LogLine ''do http request error:''
     \<in> set (fst (DumpHTTPAndHTTPs (ok_relay_env\<lparr>observer := failing_observer\<rparr>) False
               example_request))
   \<and> LogLine ''do http request error:''
     \<notin> set (fst (DumpHTTPAndHTTPs ok_relay_env False example_request))
   \<and> received (ok_relay_env\<lparr>observer := failing_observer\<rparr>)
       (fst (DumpHTTPAndHTTPs (ok_relay_env\<lparr>observer := failing_observer\<rparr>) False
               example_request))
     = respWire example_response
   \<and> received ok_relay_env (fst (DumpHTTPAndHTTPs ok_relay_env False example_request))
     = respWire example_response
   \<and> received ok_relay_env
       (takeWhile (\<lambda>e. e \<noteq> CallFilter) (fst (DumpHTTPAndHTTPs ok_relay_env False example_request)))
     = respWire example_response
   \<and> count_list (fst (DumpHTTPAndHTTPs ok_relay_env False example_request)) CallFilter = 1"
proof -
  have u: "example_request\<lparr>reqRequestURI := ''http://pub.alimama.com/a''\<rparr> = example_request"
    by (simp add: example_request_def)
  have logs: "LogLine ''do http request error:''
     \<in> set (fst (DumpHTTPAndHTTPs (ok_relay_env\<lparr>observer := failing_observer\<rparr>) False
               example_request))"
    "LogLine ''do http request error:''
     \<notin> set (fst (DumpHTTPAndHTTPs ok_relay_env False example_request))"
    by (simp_all add: DumpHTTPAndHTTPs_def relay_body_def relay_tail_def read_log_def filter_hw_def
        ok_relay_env_def ok_observer_def failing_observer_def example_request_def
        relay_prologue_def)
  have rel: "relayed ok_relay_env" "relayed_bytes ok_relay_env = respWire example_response"
    by (simp_all add: relayed_def relayed_bytes_def ok_relay_env_def)
  have w: "connWriteErr ok_relay_env = None" by (simp add: ok_relay_env_def)
  show ?thesis
    using observer_isolated [where env = ok_relay_env and oe = failing_observer and https = False
      and req = example_request and u = "''http://pub.alimama.com/a''"] logs rel w
    by (simp add: u)
qed

text \<open>
  C9 as the specification states it fails: the observer is called although the response
  has not reached the client. When the write to the client socket fails before its first
  byte, or when \<^verbatim>\<open>httputil.DumpResponse\<close> fails and the write carries no bytes, the
  source logs the error and goes on to call \<^verbatim>\<open>filter\<close>, which posts the cookies.
\<close>

theorem observer_isolated_counterexample:
  "received (ok_relay_env\<lparr>connWriteErr := Some (0, ''broken pipe'')\<rparr>)
       (fst (DumpHTTPAndHTTPs (ok_relay_env\<lparr>connWriteErr := Some (0, ''broken pipe'')\<rparr>) False
               example_request)) = []
   \<and> dropWhile (\<lambda>e. e \<noteq> LogLine ''connIn write error:'')
       (fst (DumpHTTPAndHTTPs (ok_relay_env\<lparr>connWriteErr := Some (0, ''broken pipe'')\<rparr>) False
               example_request))
     = [LogLine ''connIn write error:'', CallFilter, HttpPost collector_url ''a=1;b=2'',
        LogLine ''set cookies success. cookie: '', RspBodyClose, RecvCh, ConnInClose]
   \<and> received (ok_relay_env\<lparr>dumpRespErr := Some ''unexpected EOF''\<rparr>)
       (fst (DumpHTTPAndHTTPs (ok_relay_env\<lparr>dumpRespErr := Some ''unexpected EOF''\<rparr>) False
               example_request)) = []
   \<and> dropWhile (\<lambda>e. e \<noteq> LogLine ''respDump error:'')
       (fst (DumpHTTPAndHTTPs (ok_relay_env\<lparr>dumpRespErr := Some ''unexpected EOF''\<rparr>) False
               example_request))
     = [LogLine ''respDump error:'', ConnInWrite [], CallFilter,
        HttpPost collector_url ''a=1;b=2'', LogLine ''set cookies success. cookie: '',
        RspBodyClose, RecvCh, ConnInClose]"
  by (simp add: received_def DumpHTTPAndHTTPs_def relay_body_def relay_tail_def read_log_def
      filter_hw_def ok_relay_env_def ok_observer_def example_request_def relay_prologue_def
      header_values_def header_Set_def header_Del_def)

subsection \<open>Error paths of the relay and of the forwarder\<close>

text \<open>The handler reaches the receive on the dump channel exactly when it relays a response.\<close>

lemma rendezvous_iff_relayed:
  "RecvCh \<in> set (fst (DumpHTTPAndHTTPs env https req)) = relayed env"
  by (auto simp add: DumpHTTPAndHTTPs_def relay_body_def relay_tail_def read_log_def
      relay_prologue_def filter_hw_def relayed_def Let_def
      split: option.splits sum.splits do_outcome.splits)

text \<open>
  C5. The specification asks that every path of \<^verbatim>\<open>DumpHTTPAndHTTPs\<close> receives from the dump
  channel before it returns. The source receives only at lines 192 and 195: with a failed
  dial the handler logs, closes the client socket and returns without the receive, while
  the run in which everything succeeds does receive.
\<close>

theorem early_return_skips_rendezvous:
  "DumpHTTPAndHTTPs (ok_relay_env\<lparr>dialErr := Some ''connection refused''\<rparr>) False example_request
     = ([GoDumpRequestOut, Hijack, DialTCP ''example.test:80'', LogLine ''dial to'', ConnInClose],
        Returned)
   \<and> RecvCh \<notin> set (fst (DumpHTTPAndHTTPs
         (ok_relay_env\<lparr>dialErr := Some ''connection refused''\<rparr>) False example_request))
   \<and> RecvCh \<in> set (fst (DumpHTTPAndHTTPs ok_relay_env False example_request))"
  by (simp add: DumpHTTPAndHTTPs_def relay_body_def relay_tail_def read_log_def
      relay_prologue_def filter_hw_def ok_relay_env_def ok_observer_def example_request_def
      dial_host_def has_port_def is_digit_def)







text \<open>
  C7. The specification asks that a failed hijack is answered with status 502 on every
  path.
  \<^verbatim>\<open>InterceptHTTPs\<close> does so. \<^verbatim>\<open>DumpHTTPAndHTTPs\<close> logs and goes on to use the nil
  connection, and \<^verbatim>\<open>Forward\<close> never reads the error; both panic and neither writes a
  status.
\<close>

theorem hijack_failure_no_502:
  "DumpHTTPAndHTTPs (ok_relay_env\<lparr>hijackErr := Some ''connection already hijacked''\<rparr>) False
       example_request
     = ([GoDumpRequestOut, Hijack, LogLine ''hijack error:'', PanicEv], Panicked)
   \<and> Forward (ok_forward_env\<lparr>fHijackErr := Some ''connection already hijacked''\<rparr>)
       example_connect ''127.0.0.1:8888''
     = ([Hijack, DialTCP ''127.0.0.1:8888'', ReqWrite (connect_preamble ''127.0.0.1:8888''),
         ReadResponse, PanicEv], Panicked)
   \<and> InterceptHTTPs \<lparr>certErr = None, iHijackErr = Some ''connection already hijacked''\<rparr>
       example_connect
     = ([CallFakeCert ''example.test'', Hijack,
         LogLine ''Unable to access underlying connection from client: connection already hijacked'',
         WriteHeader 502,
         RespWrite ''Unable to access underlying connection from client: connection already hijacked''],
        Returned)"
  by (simp add: DumpHTTPAndHTTPs_def relay_prologue_def ok_relay_env_def Forward_def
      connectProxyServer_def Transport_def ok_forward_env_def example_connect_def
      example_response_def InterceptHTTPs_def respBadGateway_def split_first_def)

text \<open>
  C8. The specification asks that on a non-200 answer to the \<^verbatim>\<open>CONNECT\<close> preamble
  \<^verbatim>\<open>Forward\<close> stops before the acknowledgement and the copy tasks.
  \<^verbatim>\<open>connectProxyServer\<close> returns the status as an error, but \<^verbatim>\<open>Forward\<close> only logs
  it: with a 407 from the upstream proxy the client still receives the acknowledgement and
  both copy goroutines are started.
\<close>

theorem forward_continues_after_refusal:
  "connectProxyServer (ok_forward_env\<lparr>preambleReadRes := (Some proxy_407, None)\<rparr>) True
       ''127.0.0.1:8888''
     = ([ReqWrite (connect_preamble ''127.0.0.1:8888''), ReadResponse],
        Ret (Some ''407 Proxy Authentication Required''))
   \<and> Forward (ok_forward_env\<lparr>preambleReadRes := (Some proxy_407, None)\<rparr>) example_connect
       ''127.0.0.1:8888''
     = ([Hijack, DialTCP ''127.0.0.1:8888'', ReqWrite (connect_preamble ''127.0.0.1:8888''),
         ReadResponse, LogLine ''connectProxyServer error:'', ConnInWrite (forward_ack ''1.0''),
         GoMyCopy, GoMyCopy, RecvFirstCopy], Returned)"
  by (simp add: Forward_def connectProxyServer_def Transport_def ok_forward_env_def
      example_connect_def proxy_407_def)

subsection \<open>The issuing certificate is fresh\<close>

lemma stored_snoc: "stored env (w @ [ev]) fs = write_file env (stored env w fs) ev"
  by (simp add: stored_def)

lemma regenerate_ok:
  assumes "regenerate env hw w = (None, hw', w')"
  shows "\<exists>c. issuingCert hw' = Some c \<and> notAfter c = addDate env ONE_YEAR 0 0 (now58 env)
            \<and> isCA c \<and> issuerCN c = None
            \<and> w' = w @ [WriteCertFile (certFile (tlsConfig hw)) c]
            \<and> tlsConfig hw' = tlsConfig hw"
  using assms
  by (auto simp add: regenerate_def TLSCertificateFor_def split: sign_outcome.splits)

lemma ensure_issuing_cert_ok:
  assumes ok: "ensure_issuing_cert env hw w = (None, hw', w')"
  shows "\<exists>c. issuingCert hw' = Some c
           \<and> (if must_regenerate env
               then notAfter c = addDate env ONE_YEAR 0 0 (now58 env)
                  \<and> isCA c \<and> issuerCN c = None
                  \<and> w' = w @ [WriteCertFile (certFile (tlsConfig hw')) c]
               else addDate env 0 ONE_MONTH 0 (now54 env) \<le> notAfter c
                  \<and> loadCert env = Inr c)"
proof (cases "must_regenerate env")
  case True
  then obtain hwx where r: "regenerate env hwx w = (None, hw', w')" and "tlsConfig hwx = tlsConfig hw"
    using ok
    by (auto simp add: ensure_issuing_cert_def must_regenerate_def ExpiresBefore_def
        split: sum.splits)
  from regenerate_ok [OF r] show ?thesis using True by auto
next
  case False
  then show ?thesis
    using ok
    by (auto simp add: ensure_issuing_cert_def must_regenerate_def ExpiresBefore_def
        split: sum.splits)
qed

text \<open>
  C3, as amended. After \<^verbatim>\<open>GenerateCertForClient\<close> has returned without an error there is
  an issuing certificate, and its \<open>notAfter\<close> is at least one month
  (\<^verbatim>\<open>AddDate(0, ONE_MONTH, 0)\<close>) after the reading of the clock the function made for
  it: that of line 54 for a loaded certificate that is kept, that of line 58 for a new
  one. When the load failed or the loaded certificate expired within the month from the
  reading of line 54, it is a new self-signed CA certificate whose \<open>notAfter\<close> is one
  year after the reading of line 58; it is the last thing handed to \<^verbatim>\<open>WriteToFile\<close>,
  whose error the function drops, and the certificate file holds it when that write
  succeeded. Otherwise it is the loaded certificate. The one fact about Go's calendar that
  is used is that one year added to an instant is no earlier than one month added to it.
\<close>

theorem ca_fresh:
  assumes ok: "GenerateCertForClient env hw = (None, hw', w)"
    and cal: "addDate env 0 ONE_MONTH 0 (now58 env) \<le> addDate env ONE_YEAR 0 0 (now58 env)"
  shows "\<exists>c. issuingCert hw' = Some c
           \<and> (if must_regenerate env
               then addDate env 0 ONE_MONTH 0 (now58 env) \<le> notAfter c
                  \<and> notAfter c = addDate env ONE_YEAR 0 0 (now58 env)
                  \<and> isCA c \<and> issuerCN c = None
                  \<and> (\<exists>w0. w = w0 @ [WriteCertFile (certFile (tlsConfig hw')) c])
                  \<and> (writeCertErr env = None
                       \<longrightarrow> stored env w fs (certFile (tlsConfig hw')) = Some (CertPEM c))
               else addDate env 0 ONE_MONTH 0 (now54 env) \<le> notAfter c
                  \<and> loadCert env = Inr c)"
proof -
  obtain hw2 w0 where "ensure_issuing_cert env hw2 w0 = (None, hw', w)"
    using ok
    by (auto simp add: GenerateCertForClient_def Let_def split: sum.splits)
  from ensure_issuing_cert_ok [OF this] obtain c where c: "issuingCert hw' = Some c"
    "if must_regenerate env
       then notAfter c = addDate env ONE_YEAR 0 0 (now58 env)
          \<and> isCA c \<and> issuerCN c = None
          \<and> w = w0 @ [WriteCertFile (certFile (tlsConfig hw')) c]
       else addDate env 0 ONE_MONTH 0 (now54 env) \<le> notAfter c
          \<and> loadCert env = Inr c"
    by blast
  show ?thesis
  proof (cases "must_regenerate env")
    case True
    then have r: "notAfter c = addDate env ONE_YEAR 0 0 (now58 env)" "isCA c" "issuerCN c = None"
      "w = w0 @ [WriteCertFile (certFile (tlsConfig hw')) c]"
      using c(2) by simp_all
    have "stored env w fs (certFile (tlsConfig hw')) = Some (CertPEM c)"
      if "writeCertErr env = None"
      using that unfolding r(4) stored_snoc by simp
    then show ?thesis using True c(1) r cal by auto
  next
    case False
    then show ?thesis using c by simp
  qed
qed

theorem ca_fresh_witness:
  "fst (GenerateCertForClient stale_ca_env empty_wrapper) = None
   \<and> addDate stale_ca_env 0 ONE_MONTH 0 (now58 stale_ca_env)
       \<le> addDate stale_ca_env ONE_YEAR 0 0 (now58 stale_ca_env)
   \<and> must_regenerate stale_ca_env
   \<and> map_option notAfter (issuingCert (fst (snd (GenerateCertForClient stale_ca_env empty_wrapper))))
       = Some (455 * ONE_DAY + 5)
   \<and> addDate stale_ca_env 0 ONE_MONTH 0 (now58 stale_ca_env) = 120 * ONE_DAY + 5
   \<and> map_option CertPEM (issuingCert (fst (snd (GenerateCertForClient stale_ca_env empty_wrapper))))
       = stored stale_ca_env (snd (snd (GenerateCertForClient stale_ca_env empty_wrapper)))
           (\<lambda>f. None) ''cert.pem''"
proof -
  let ?hw = "fst (snd (GenerateCertForClient stale_ca_env empty_wrapper))"
  let ?w = "snd (snd (GenerateCertForClient stale_ca_env empty_wrapper))"
  have run: "GenerateCertForClient stale_ca_env empty_wrapper = (None, ?hw, ?w)"
    by (simp add: GenerateCertForClient_def load_or_generate_pk_def ensure_issuing_cert_def
        regenerate_def TLSCertificateFor_def ExpiresBefore_def stale_ca_env_def empty_wrapper_def
        april_addDate_def ONE_MONTH_def ONE_YEAR_def ONE_DAY_def ONE_SECOND_def)
  have cal: "addDate stale_ca_env 0 ONE_MONTH 0 (now58 stale_ca_env)
       \<le> addDate stale_ca_env ONE_YEAR 0 0 (now58 stale_ca_env)"
    by (simp add: stale_ca_env_def april_addDate_def ONE_MONTH_def ONE_YEAR_def ONE_DAY_def
        ONE_SECOND_def)
  have reg: "must_regenerate stale_ca_env"
    by (simp add: must_regenerate_def stale_ca_env_def april_addDate_def ONE_MONTH_def
        ONE_DAY_def ONE_SECOND_def)
  have yr: "addDate stale_ca_env ONE_YEAR 0 0 (now58 stale_ca_env) = 455 * ONE_DAY + 5"
    and mo: "addDate stale_ca_env 0 ONE_MONTH 0 (now58 stale_ca_env) = 120 * ONE_DAY + 5"
    by (simp_all add: stale_ca_env_def april_addDate_def ONE_MONTH_def ONE_YEAR_def)
  have wr: "writeCertErr stale_ca_env = None" by (simp add: stale_ca_env_def)
  have cf: "certFile (tlsConfig ?hw) = ''cert.pem''"
    by (simp add: GenerateCertForClient_def load_or_generate_pk_def ensure_issuing_cert_def
        regenerate_def TLSCertificateFor_def ExpiresBefore_def stale_ca_env_def empty_wrapper_def
        example_config_def with_defaults_def
        april_addDate_def ONE_MONTH_def ONE_YEAR_def ONE_DAY_def ONE_SECOND_def)
  obtain c where c: "issuingCert ?hw = Some c"
    "notAfter c = addDate stale_ca_env ONE_YEAR 0 0 (now58 stale_ca_env)"
    "stored stale_ca_env ?w (\<lambda>f. None) (certFile (tlsConfig ?hw)) = Some (CertPEM c)"
    using ca_fresh [OF run cal, of "\<lambda>f. None"] reg wr by auto
  have fin: "map_option notAfter (issuingCert ?hw) = Some (455 * ONE_DAY + 5)"
    using c yr by simp
  have st: "map_option CertPEM (issuingCert ?hw) = stored stale_ca_env ?w (\<lambda>f. None) ''cert.pem''"
    using c cf by simp
  have none: "fst (GenerateCertForClient stale_ca_env empty_wrapper) = None"
    using run by (metis fst_conv)
  show ?thesis using none cal reg fin mo st by blast
qed

text \<open>
  C3 as the specification states it fails: the month is counted from the reading of the
  clock at line 54, not from the return. A stored certificate that expires one month and
  a microsecond after that reading is kept, and two microseconds after the reading, when
  the function has returned, it expires within the month.
\<close>

theorem ca_fresh_counterexample:
  "fst (GenerateCertForClient kept_ca_env empty_wrapper) = None
   \<and> issuingCert (fst (snd (GenerateCertForClient kept_ca_env empty_wrapper))) = Some kept_cert
   \<and> addDate kept_ca_env 0 ONE_MONTH 0 (now54 kept_ca_env) \<le> notAfter kept_cert
   \<and> \<not> addDate kept_ca_env 0 ONE_MONTH 0 (now54 kept_ca_env + 2000) \<le> notAfter kept_cert
   \<and> ExpiresBefore kept_cert (addDate kept_ca_env 0 ONE_MONTH 0 (now54 kept_ca_env + 2000))"
  by (simp add: GenerateCertForClient_def load_or_generate_pk_def ensure_issuing_cert_def
      ExpiresBefore_def kept_ca_env_def kept_cert_def empty_wrapper_def
      april_addDate_def ONE_MONTH_def ONE_DAY_def ONE_SECOND_def)

subsection \<open>The statements of \<^verbatim>\<open>FakeCertForName\<close>\<close>

lemma cache_Get_cases:
  obtains (hit) e where "c k = Some e" "now < expiration e" "cache_Get c k now = (Some (entryData e), c)"
  | (miss) "cache_Get c k now = (None, c(k := None))" "\<And>e. c k = Some e \<Longrightarrow> expiration e \<le> now"
proof (cases "c k")
  case None
  then have "c(k := None) = c" by auto
  then have "cache_Get c k now = (None, c(k := None))" using None by (simp add: cache_Get_def)
  then show ?thesis using None miss by simp
next
  case (Some e)
  show ?thesis
  proof (cases "now < expiration e")
    case True
    then show ?thesis using Some hit by (simp add: cache_Get_def)
  next
    case False
    then show ?thesis using Some miss by (simp add: cache_Get_def)
  qed
qed

lemma set_pc_simps [simp]:
  "clock (set_pc i p s) = clock s"
  "dynamicCerts (set_pc i p s) = dynamicCerts s"
  "certMutex (set_pc i p s) = certMutex s"
  "signOps (set_pc i p s) = signOps s"
  "readAt (set_pc i p s) = readAt s"
  "pcs (set_pc i p s) = (pcs s)[i := p]"
  by (simp_all add: set_pc_def)

lemma read_clock_simps [simp]:
  "clock (read_clock i s) = clock s"
  "dynamicCerts (read_clock i s) = dynamicCerts s"
  "certMutex (read_clock i s) = certMutex s"
  "signOps (read_clock i s) = signOps s"
  "readAt (read_clock i s) = (readAt s)(i := clock s)"
  "pcs (read_clock i s) = pcs s"
  by (simp_all add: read_clock_def)

text \<open>The statement a call is at decides its step.\<close>

lemma fc_step_outside:
  "\<not> (i < length (pcs s) \<and> i < length names) \<Longrightarrow> fc_step env hw names i s = s"
  unfolding fc_step_def by (simp only: if_False)

lemma fc_step_L71:
  assumes "i < length (pcs s)" "i < length names" "pcs s ! i = FC_L71"
  shows "cache_Get (dynamicCerts s) (names ! i) (clock s) = (Some kp, c) \<Longrightarrow>
           fc_step env hw names i s = set_pc i (FC_L73 kp) (read_clock i (s\<lparr>dynamicCerts := c\<rparr>))"
    and "cache_Get (dynamicCerts s) (names ! i) (clock s) = (None, c) \<Longrightarrow>
           fc_step env hw names i s = set_pc i FC_L76 (read_clock i (s\<lparr>dynamicCerts := c\<rparr>))"
  using assms by (simp_all add: fc_step_def)

lemma fc_step_L73:
  assumes "i < length (pcs s)" "i < length names" "pcs s ! i = FC_L73 kp"
  shows "fc_step env hw names i s = set_pc i (FC_Done (FcOk kp)) s"
  using assms by (simp add: fc_step_def)

lemma fc_step_L76:
  assumes "i < length (pcs s)" "i < length names" "pcs s ! i = FC_L76"
  shows "certMutex s = None \<Longrightarrow>
           fc_step env hw names i s = set_pc i FC_L78 (s\<lparr>certMutex := Some i\<rparr>)"
    and "certMutex s = Some j \<Longrightarrow> fc_step env hw names i s = s"
  using assms by (simp_all add: fc_step_def)

lemma fc_step_L78:
  assumes "i < length (pcs s)" "i < length names" "pcs s ! i = FC_L78"
  shows "cache_Get (dynamicCerts s) (names ! i) (clock s) = (Some kp, c) \<Longrightarrow>
           fc_step env hw names i s
             = set_pc i (FC_Return (FcOk kp)) (read_clock i (s\<lparr>dynamicCerts := c\<rparr>))"
    and "cache_Get (dynamicCerts s) (names ! i) (clock s) = (None, c) \<Longrightarrow>
           fc_step env hw names i s = set_pc i FC_L85 (read_clock i (s\<lparr>dynamicCerts := c\<rparr>))"
  using assms by (simp_all add: fc_step_def)

lemma fc_step_L85:
  assumes "i < length (pcs s)" "i < length names" "pcs s ! i = FC_L85"
  shows "pk hw = None \<Longrightarrow> fc_step env hw names i s = set_pc i (FC_Return FcPanic) s"
    and "pk hw = Some k \<Longrightarrow> signRes env (length (signOps s)) = SignFails e \<Longrightarrow>
           fc_step env hw names i s
             = set_pc i (FC_Return (FcErr (''Unable to issue certificate: '' @ e)))
                 (read_clock i (s\<lparr>signOps := names ! i # signOps s\<rparr>))"
    and "pk hw = Some k \<Longrightarrow> signRes env (length (signOps s)) = Signed n \<Longrightarrow>
           fc_step env hw names i s
             = set_pc i (FC_L94 (minted hw (names ! i) (clock s) n))
                 (read_clock i (s\<lparr>signOps := names ! i # signOps s\<rparr>))"
  using assms by (simp_all add: fc_step_def TLSCertificateFor_def minted_def Let_def)

lemma fc_step_L94:
  assumes "i < length (pcs s)" "i < length names" "pcs s ! i = FC_L94 c"
  shows "parseErr env (length (signOps s)) = Some e \<Longrightarrow>
           fc_step env hw names i s
             = set_pc i (FC_Return (FcErr (''Unable to parse keypair for tls: '' @ e))) s"
    and "parseErr env (length (signOps s)) = None \<Longrightarrow>
           fc_step env hw names i s
             = set_pc i (FC_L100 \<lparr>leaf = parsed_leaf c, privKeyPem = pkPem hw\<rparr>) s"
  using assms by (simp_all add: fc_step_def)

lemma fc_step_L100:
  assumes "i < length (pcs s)" "i < length names" "pcs s ! i = FC_L100 kp"
  shows "fc_step env hw names i s
           = set_pc i (FC_Return (FcOk kp))
               (read_clock i
                  (s\<lparr>dynamicCerts :=
                       cache_Set (dynamicCerts s) (names ! i) kp (TWO_WEEKS - ONE_DAY) (clock s)\<rparr>))"
  using assms by (simp add: fc_step_def)

lemma fc_step_Return:
  assumes "i < length (pcs s)" "i < length names" "pcs s ! i = FC_Return r"
  shows "fc_step env hw names i s = set_pc i (FC_Done r) (s\<lparr>certMutex := None\<rparr>)"
  using assms by (simp add: fc_step_def)

lemma fc_step_Done:
  assumes "i < length (pcs s)" "i < length names" "pcs s ! i = FC_Done r"
  shows "fc_step env hw names i s = s"
  using assms by (simp add: fc_step_def)

text \<open>A step leaves the clock and the number of calls as they are.\<close>

lemma fc_step_clock: "clock (fc_step env hw names i s) = clock s"
  by (simp add: fc_step_def Let_def set_pc_def read_clock_def
      split: fc_pc.splits option.splits prod.splits sum.splits)

lemma fc_step_length: "length (pcs (fc_step env hw names i s)) = length (pcs s)"
  by (simp add: fc_step_def Let_def set_pc_def read_clock_def
      split: fc_pc.splits option.splits prod.splits sum.splits)

lemma elapsed_nonneg: "ticks_ok sch \<Longrightarrow> 0 \<le> elapsed sch"
  by (induction sch rule: ticks_ok.induct) simp_all

lemma whole_seconds_le: "whole_seconds t \<le> t"
  by (simp add: whole_seconds_def ONE_SECOND_def)

lemma whole_seconds_gt: "t < whole_seconds t + ONE_SECOND"
proof -
  have "t mod ONE_SECOND < ONE_SECOND" by (simp add: ONE_SECOND_def)
  then show ?thesis by (simp add: whole_seconds_def)
qed

subsection \<open>Leaf certificates: remaining validity\<close>

lemma cache_inv_here:
  "cache_inv D s \<Longrightarrow> i < length (pcs s) \<Longrightarrow> pc_ok D (clock s) (readAt s i) (pcs s ! i)"
  by (simp add: cache_inv_def)

lemma cache_inv_entry:
  "cache_inv D s \<Longrightarrow> dynamicCerts s k = Some e \<Longrightarrow> entry_ok D (clock s) e"
  by (simp add: cache_inv_def)

text \<open>A step of call \<open>i\<close> keeps the invariant when the new statement and the new entries do.\<close>

lemma cache_inv_update:
  assumes inv: "cache_inv D s" and il: "i < length (pcs s)"
    and clk: "clock s' = clock s" and pc: "pcs s' = (pcs s)[i := p]"
    and others: "\<And>j. j \<noteq> i \<Longrightarrow> readAt s' j = readAt s j"
    and here: "pc_ok D (clock s) (readAt s' i) p"
    and entries: "\<And>k e. dynamicCerts s' k = Some e \<Longrightarrow> entry_ok D (clock s) e"
  shows "cache_inv D s'"
proof -
  have "pc_ok D (clock s') (readAt s' j) (pcs s' ! j)" if "j < length (pcs s')" for j
  proof (cases "j = i")
    case True
    then show ?thesis using here clk pc il by simp
  next
    case False
    then show ?thesis using cache_inv_here [OF inv, of j] that clk pc others by simp
  qed
  then show ?thesis using entries clk by (simp add: cache_inv_def)
qed

lemma entry_ok_mono: "entry_ok D now e \<Longrightarrow> now \<le> now' \<Longrightarrow> entry_ok D now' e"
  by (auto simp add: entry_ok_def)

lemma pc_ok_mono: "pc_ok D now t p \<Longrightarrow> now \<le> now' \<Longrightarrow> pc_ok D now' t p"
  by (cases "(D, now, t, p)" rule: pc_ok.cases) (auto simp add: serving_ok_def)

lemma cache_inv_tick:
  assumes "cache_inv D s" "0 \<le> d"
  shows "cache_inv D (s\<lparr>clock := clock s + d\<rparr>)"
proof -
  have le: "clock s \<le> clock s + d" using assms(2) by simp
  have "entry_ok D (clock s + d) e" if "dynamicCerts s k = Some e" for k e
    using cache_inv_entry [OF assms(1) that] entry_ok_mono [OF _ le] by blast
  moreover have "pc_ok D (clock s + d) (readAt s j) (pcs s ! j)" if "j < length (pcs s)" for j
    using cache_inv_here [OF assms(1) that] pc_ok_mono [OF _ le] by blast
  ultimately show ?thesis by (simp add: cache_inv_def)
qed

lemma cache_inv_init: "cache_inv D (fc_init t0 n)"
  by (simp add: cache_inv_def fc_init_def NewCache_def)

lemma TWO_WEEKS_gt: "ONE_DAY < TWO_WEEKS"
  by (simp add: TWO_WEEKS_def ONE_DAY_def ONE_SECOND_def)

lemma cache_inv_step:
  assumes inv: "cache_inv D s" and lat: "latency_ok D (Step i) s"
  shows "cache_inv D (fc_step env hw names i s)"
proof (cases "i < length (pcs s) \<and> i < length names")
  case False
  show ?thesis using inv by (simp only: fc_step_outside [OF False])
next
  case True
  then have il: "i < length (pcs s)" and inm: "i < length names" by simp_all
  note here = cache_inv_here [OF inv il]
  note ent = cache_inv_entry [OF inv]
  have evict: "entry_ok D (clock s) e" if "((dynamicCerts s)(k' := None)) k = Some e" for k k' e
    using that ent [of k e] by (cases "k = k'") simp_all
  show ?thesis
  proof (cases "pcs s ! i")
    case FC_L71
    note st = fc_step_L71 [OF il inm FC_L71]
    show ?thesis
    proof (cases rule: cache_Get_cases [of "dynamicCerts s" "names ! i" "clock s"])
      case (hit e)
      have "serving_ok D (clock s) (clock s) (entryData e)"
        using ent [OF hit(1)] hit(2) by (simp add: entry_ok_def serving_ok_def)
      then show ?thesis unfolding st(1) [OF hit(3)]
        by (intro cache_inv_update [OF inv il, where p = "FC_L73 (entryData e)"])
           (simp_all add: ent)
    next
      case miss
      show ?thesis unfolding st(2) [OF miss(1)]
        by (intro cache_inv_update [OF inv il, where p = "FC_L76"]) (simp_all add: evict)
    qed
  next
    case (FC_L73 kp)
    show ?thesis unfolding fc_step_L73 [OF il inm FC_L73]
      by (intro cache_inv_update [OF inv il, where p = "FC_Done (FcOk kp)"]) (simp_all add: ent)
  next
    case FC_L76
    note st = fc_step_L76 [OF il inm FC_L76]
    show ?thesis
    proof (cases "certMutex s")
      case None
      show ?thesis unfolding st(1) [OF None]
        by (intro cache_inv_update [OF inv il, where p = "FC_L78"]) (simp_all add: ent)
    next
      case (Some j)
      show ?thesis unfolding st(2) [OF Some] by (rule inv)
    qed
  next
    case FC_L78
    note st = fc_step_L78 [OF il inm FC_L78]
    show ?thesis
    proof (cases rule: cache_Get_cases [of "dynamicCerts s" "names ! i" "clock s"])
      case (hit e)
      have "serving_ok D (clock s) (clock s) (entryData e)"
        using ent [OF hit(1)] hit(2) by (simp add: entry_ok_def serving_ok_def)
      then show ?thesis unfolding st(1) [OF hit(3)]
        by (intro cache_inv_update [OF inv il, where p = "FC_Return (FcOk (entryData e))"])
           (simp_all add: ent)
    next
      case miss
      show ?thesis unfolding st(2) [OF miss(1)]
        by (intro cache_inv_update [OF inv il, where p = "FC_L85"]) (simp_all add: evict)
    qed
  next
    case FC_L85
    note st = fc_step_L85 [OF il inm FC_L85]
    show ?thesis
    proof (cases "pk hw")
      case None
      show ?thesis unfolding st(1) [OF None]
        by (intro cache_inv_update [OF inv il, where p = "FC_Return FcPanic"]) (simp_all add: ent)
    next
      case (Some k)
      show ?thesis
      proof (cases "signRes env (length (signOps s))")
        case (SignFails e)
        show ?thesis unfolding st(2) [OF Some SignFails]
          by (intro cache_inv_update [OF inv il,
                where p = "FC_Return (FcErr (''Unable to issue certificate: '' @ e))"])
             (simp_all add: ent)
      next
        case (Signed n)
        show ?thesis unfolding st(3) [OF Some Signed]
          by (intro cache_inv_update [OF inv il,
                where p = "FC_L94 (minted hw (names ! i) (clock s) n)"])
             (simp_all add: ent minted_def)
      qed
    qed
  next
    case (FC_L94 c)
    note st = fc_step_L94 [OF il inm FC_L94]
    have c: "readAt s i \<le> clock s" "notAfter c = readAt s i + TWO_WEEKS"
      using here FC_L94 by simp_all
    show ?thesis
    proof (cases "parseErr env (length (signOps s))")
      case None
      have "pc_ok D (clock s) (readAt s i) (FC_L100 \<lparr>leaf = parsed_leaf c, privKeyPem = pkPem hw\<rparr>)"
        using c whole_seconds_le [of "notAfter c"] whole_seconds_gt [of "notAfter c"]
        by (simp add: parsed_leaf_def)
      then show ?thesis unfolding st(2) [OF None]
        by (intro cache_inv_update [OF inv il,
              where p = "FC_L100 \<lparr>leaf = parsed_leaf c, privKeyPem = pkPem hw\<rparr>"])
           (simp_all add: ent)
    next
      case (Some e)
      show ?thesis unfolding st(1) [OF Some]
        by (intro cache_inv_update [OF inv il,
              where p = "FC_Return (FcErr (''Unable to parse keypair for tls: '' @ e))"])
           (simp_all add: ent)
    qed
  next
    case (FC_L100 kp)
    have kp: "readAt s i \<le> clock s" "readAt s i + TWO_WEEKS < notAfter (leaf kp) + ONE_SECOND"
      "notAfter (leaf kp) \<le> readAt s i + TWO_WEEKS"
      using here FC_L100 by simp_all
    have late: "clock s \<le> readAt s i + D"
      using lat il FC_L100 by simp
    have e: "entry_ok D (clock s) \<lparr>entryData = kp, expiration = clock s + (TWO_WEEKS - ONE_DAY)\<rparr>"
      using kp late by (simp add: entry_ok_def)
    have sv: "serving_ok D (clock s) (clock s) kp"
      using kp late TWO_WEEKS_gt by (simp add: serving_ok_def)
    have entries: "entry_ok D (clock s) e'"
      if "cache_Set (dynamicCerts s) (names ! i) kp (TWO_WEEKS - ONE_DAY) (clock s) k = Some e'"
      for k e'
      using that e ent [of k e'] by (cases "k = names ! i") (simp_all add: cache_Set_def)
    show ?thesis unfolding fc_step_L100 [OF il inm FC_L100]
      by (intro cache_inv_update [OF inv il, where p = "FC_Return (FcOk kp)"])
         (simp_all add: sv entries)
  next
    case (FC_Return r)
    show ?thesis unfolding fc_step_Return [OF il inm FC_Return]
      by (intro cache_inv_update [OF inv il, where p = "FC_Done r"]) (simp_all add: ent)
  next
    case (FC_Done r)
    show ?thesis unfolding fc_step_Done [OF il inm FC_Done] by (rule inv)
  qed
qed

lemma cache_inv_act:
  assumes "cache_inv D s" "latency_ok D a s"
  shows "cache_inv D (fc_act env hw names a s)"
proof (cases a)
  case (Step i)
  then show ?thesis using assms cache_inv_step by simp
next
  case (Tick d)
  then show ?thesis using assms cache_inv_tick by simp
qed

lemma cache_inv_run:
  "cache_inv D s \<Longrightarrow> run_ok D env hw names sch s \<Longrightarrow> cache_inv D (fc_run env hw names sch s)"
proof (induction sch arbitrary: s)
  case Nil
  then show ?case by simp
next
  case (Cons a sch)
  from Cons.prems have "cache_inv D (fc_act env hw names a s)"
    and "run_ok D env hw names sch (fc_act env hw names a s)"
    by (simp_all add: cache_inv_act)
  then show ?case using Cons.IH by simp
qed

lemma run_ok_snoc:
  "run_ok D env hw names (sch @ [a]) s
     = (run_ok D env hw names sch s \<and> latency_ok D a (fc_run env hw names sch s))"
  by (induction sch arbitrary: s) simp_all

text \<open>The only steps that complete a call with a key pair are the two kinds of return.\<close>

lemma returns_keypair:
  assumes il: "i < length (pcs s)" and inm: "i < length names"
    and before: "pcs s ! i \<noteq> FC_Done (FcOk kp)"
    and after: "pcs (fc_step env hw names i s) ! i = FC_Done (FcOk kp)"
  shows "pcs s ! i = FC_L73 kp \<or> pcs s ! i = FC_Return (FcOk kp)"
proof (cases "pcs s ! i")
  case FC_L71
  note st = fc_step_L71 [OF il inm FC_L71]
  show ?thesis
  proof (cases rule: cache_Get_cases [of "dynamicCerts s" "names ! i" "clock s"])
    case (hit e)
    show ?thesis using after il unfolding st(1) [OF hit(3)] by simp
  next
    case miss
    show ?thesis using after il unfolding st(2) [OF miss(1)] by simp
  qed
next
  case (FC_L73 kp')
  show ?thesis using after il FC_L73 unfolding fc_step_L73 [OF il inm FC_L73] by simp
next
  case FC_L76
  note st = fc_step_L76 [OF il inm FC_L76]
  show ?thesis
  proof (cases "certMutex s")
    case None
    show ?thesis using after il unfolding st(1) [OF None] by simp
  next
    case (Some j)
    show ?thesis using after FC_L76 unfolding st(2) [OF Some] by simp
  qed
next
  case FC_L78
  note st = fc_step_L78 [OF il inm FC_L78]
  show ?thesis
  proof (cases rule: cache_Get_cases [of "dynamicCerts s" "names ! i" "clock s"])
    case (hit e)
    show ?thesis using after il unfolding st(1) [OF hit(3)] by simp
  next
    case miss
    show ?thesis using after il unfolding st(2) [OF miss(1)] by simp
  qed
next
  case FC_L85
  note st = fc_step_L85 [OF il inm FC_L85]
  show ?thesis
  proof (cases "pk hw")
    case None
    show ?thesis using after il unfolding st(1) [OF None] by simp
  next
    case (Some k)
    show ?thesis
    proof (cases "signRes env (length (signOps s))")
      case (SignFails e)
      show ?thesis using after il unfolding st(2) [OF Some SignFails] by simp
    next
      case (Signed n)
      show ?thesis using after il unfolding st(3) [OF Some Signed] by simp
    qed
  qed
next
  case (FC_L94 c)
  note st = fc_step_L94 [OF il inm FC_L94]
  show ?thesis
  proof (cases "parseErr env (length (signOps s))")
    case None
    show ?thesis using after il unfolding st(2) [OF None] by simp
  next
    case (Some e)
    show ?thesis using after il unfolding st(1) [OF Some] by simp
  qed
next
  case (FC_L100 kp')
  show ?thesis using after il unfolding fc_step_L100 [OF il inm FC_L100] by simp
next
  case (FC_Return r)
  show ?thesis using after il FC_Return unfolding fc_step_Return [OF il inm FC_Return] by simp
next
  case (FC_Done r)
  show ?thesis using after before unfolding fc_step_Done [OF il inm FC_Done] by simp
qed

lemma step_result_bounds:
  assumes inv: "cache_inv D s" and lat: "latency_ok D (Step i) s"
    and before: "pcs s ! i \<noteq> FC_Done (FcOk kp)"
    and after: "pcs (fc_step env hw names i s) ! i = FC_Done (FcOk kp)"
  shows "ONE_DAY - ONE_SECOND - 2 * D < notAfter (leaf kp) - clock s
       \<and> notAfter (leaf kp) - clock s \<le> TWO_WEEKS"
proof (cases "i < length (pcs s) \<and> i < length names")
  case False
  show ?thesis using before after by (simp only: fc_step_outside [OF False])
next
  case True
  then have il: "i < length (pcs s)" and inm: "i < length names" by simp_all
  have at: "pcs s ! i = FC_L73 kp \<or> pcs s ! i = FC_Return (FcOk kp)"
    by (rule returns_keypair [OF il inm before after])
  then have "serving_ok D (clock s) (readAt s i) kp"
    using cache_inv_here [OF inv il] by auto
  moreover have "clock s \<le> readAt s i + D"
    using at lat il by auto
  ultimately show ?thesis by (simp add: serving_ok_def)
qed

text \<open>
  C2, as amended. Whenever a call of \<^verbatim>\<open>FakeCertForName\<close> returns a key pair, the leaf's
  remaining validity (\<open>notAfter\<close> minus the clock at the \<^verbatim>\<open>return\<close>) is at most two
  weeks and greater than one day less one second and twice \<open>D\<close>, where \<open>D\<close> bounds
  the time a call takes from the reading of the clock at line 88 to the insertion at line
  100, and from a lookup or the insertion to its \<^verbatim>\<open>return\<close>. The second is the most
  that the whole-second \<open>notAfter\<close> of the parsed leaf lies before the reading of
  line 88 plus two weeks.
\<close>

theorem leaf_ttl:
  assumes ok: "run_ok D env hw names (sch @ [Step i]) (fc_init t0 (length names))"
    and s: "s = fc_run env hw names sch (fc_init t0 (length names))"
    and before: "pcs s ! i \<noteq> FC_Done (FcOk kp)"
    and after: "pcs (fc_step env hw names i s) ! i = FC_Done (FcOk kp)"
  shows "ONE_DAY - ONE_SECOND - 2 * D < notAfter (leaf kp) - clock s
       \<and> notAfter (leaf kp) - clock s \<le> TWO_WEEKS"
proof -
  have r: "run_ok D env hw names sch (fc_init t0 (length names))"
    and l: "latency_ok D (Step i) s"
    using ok s by (simp_all only: run_ok_snoc)
  have "cache_inv D s" unfolding s by (rule cache_inv_run [OF cache_inv_init r])
  then show ?thesis using l before after by (rule step_result_bounds)
qed

text \<open>Evaluation of the concrete runs.\<close>

lemmas fc_eval = fc_step_def set_pc_def read_clock_def fc_init_def cache_Get_def cache_Set_def
  NewCache_def TLSCertificateFor_def parsed_leaf_def whole_seconds_def ok_cert_env_def
  example_wrapper_def example_ca_def two_calls_def first_keypair_def Let_def

text \<open>
  C2 as the specification states it fails: the cache TTL runs from the insertion, the
  leaf's validity from the earlier reading of the clock. When the mint takes one second,
  a call that looks the host up half a second before the entry expires returns a leaf
  with half a second less than one day left.
\<close>

theorem leaf_ttl_counterexample:
  "pcs (fc_run ok_cert_env example_wrapper two_calls slow_mint (fc_init 0 2)) ! 1
       = FC_L73 first_keypair
   \<and> pcs (fc_step ok_cert_env example_wrapper two_calls 1
            (fc_run ok_cert_env example_wrapper two_calls slow_mint (fc_init 0 2))) ! 1
       = FC_Done (FcOk first_keypair)
   \<and> notAfter (leaf first_keypair)
       - clock (fc_run ok_cert_env example_wrapper two_calls slow_mint (fc_init 0 2))
       = ONE_DAY - 500000000
   \<and> \<not> ONE_DAY < notAfter (leaf first_keypair)
       - clock (fc_run ok_cert_env example_wrapper two_calls slow_mint (fc_init 0 2))"
  by (simp add: slow_mint_def fc_eval TWO_WEEKS_def ONE_DAY_def ONE_SECOND_def)

text \<open>
  With no time passing within a call the remaining validity can still be less than one
  day: a leaf signed three tenths of a second past a whole second is valid until two weeks
  after that whole second.
\<close>

lemma prompt_state:
  "clock (fc_run ok_cert_env example_wrapper two_calls prompt_mint (fc_init 300000000 2))
     = 13 * ONE_DAY + 299999999"
  "pcs (fc_run ok_cert_env example_wrapper two_calls prompt_mint (fc_init 300000000 2)) ! 1
     = FC_L73 first_keypair"
  "pcs (fc_step ok_cert_env example_wrapper two_calls 1
         (fc_run ok_cert_env example_wrapper two_calls prompt_mint (fc_init 300000000 2))) ! 1
     = FC_Done (FcOk first_keypair)"
  by (simp_all add: prompt_mint_def fc_eval TWO_WEEKS_def ONE_DAY_def ONE_SECOND_def
      numeral_2_eq_2)

lemma prompt_ok:
  "run_ok 0 ok_cert_env example_wrapper two_calls (prompt_mint @ [Step 1])
     (fc_init 300000000 (length two_calls))"
  by (simp add: prompt_mint_def fc_eval TWO_WEEKS_def ONE_DAY_def ONE_SECOND_def numeral_2_eq_2)

theorem leaf_ttl_witness:
  "run_ok 0 ok_cert_env example_wrapper two_calls (prompt_mint @ [Step 1])
     (fc_init 300000000 (length two_calls))
   \<and> pcs (fc_run ok_cert_env example_wrapper two_calls prompt_mint (fc_init 300000000 2)) ! 1
       = FC_L73 first_keypair
   \<and> pcs (fc_step ok_cert_env example_wrapper two_calls 1
         (fc_run ok_cert_env example_wrapper two_calls prompt_mint (fc_init 300000000 2))) ! 1
       = FC_Done (FcOk first_keypair)
   \<and> ONE_DAY - ONE_SECOND - 2 * 0 < notAfter (leaf first_keypair)
        - clock (fc_run ok_cert_env example_wrapper two_calls prompt_mint (fc_init 300000000 2))
   \<and> notAfter (leaf first_keypair)
        - clock (fc_run ok_cert_env example_wrapper two_calls prompt_mint (fc_init 300000000 2))
       \<le> TWO_WEEKS
   \<and> notAfter (leaf first_keypair)
        - clock (fc_run ok_cert_env example_wrapper two_calls prompt_mint (fc_init 300000000 2))
       = ONE_DAY - 299999999"
proof -
  have len: "length two_calls = 2" by (simp add: two_calls_def)
  have b: "pcs (fc_run ok_cert_env example_wrapper two_calls prompt_mint
                 (fc_init 300000000 (length two_calls))) ! 1
      \<noteq> FC_Done (FcOk first_keypair)"
    using prompt_state(2) by (simp add: len)
  have a: "pcs (fc_step ok_cert_env example_wrapper two_calls 1
         (fc_run ok_cert_env example_wrapper two_calls prompt_mint
            (fc_init 300000000 (length two_calls)))) ! 1
     = FC_Done (FcOk first_keypair)"
    using prompt_state(3) by (simp add: len)
  have eq: "notAfter (leaf first_keypair)
        - clock (fc_run ok_cert_env example_wrapper two_calls prompt_mint (fc_init 300000000 2))
      = ONE_DAY - 299999999"
    using prompt_state(1) by (simp add: first_keypair_def TWO_WEEKS_def)
  show ?thesis
    using leaf_ttl [OF prompt_ok refl b a] prompt_ok prompt_state(2,3) eq
    by (simp add: len)
qed

subsection \<open>Leaf certificates: memoization\<close>

lemma tally_update:
  assumes "i < length ps" "i < length names"
  shows "tally P h names (ps[i := q]) + (if names ! i = h \<and> P (ps ! i) then 1 else 0)
       = tally P h names ps + (if names ! i = h \<and> P q then 1 else 0)"
  using assms
proof (induction ps arbitrary: names i)
  case Nil
  then show ?case by simp
next
  case (Cons p ps)
  then obtain n ns where names: "names = n # ns" by (cases names) auto
  show ?case
  proof (cases i)
    case 0
    then show ?thesis using names by (simp add: tally_def)
  next
    case (Suc k)
    then have "k < length ps" "k < length ns" using Cons.prems names by simp_all
    from Cons.IH [OF this] show ?thesis using Suc names
      by (auto simp add: tally_def split: if_splits)
  qed
qed

lemma tally_cong:
  assumes "length ps = length names"
    and "\<And>j. j < length names \<Longrightarrow> names ! j = h \<Longrightarrow> P (ps ! j) = Q (ps ! j)"
  shows "tally P h names ps = tally Q h names ps"
proof -
  have "(n = h \<and> P p) = (n = h \<and> Q p)" if mem: "(n, p) \<in> set (zip names ps)" for n p
  proof -
    obtain j where "j < length names" "names ! j = n" "ps ! j = p"
      using mem assms(1) unfolding in_set_zip by auto
    then show ?thesis using assms(2) [of j] by auto
  qed
  then have "filter (\<lambda>(n, p). n = h \<and> P p) (zip names ps)
           = filter (\<lambda>(n, p). n = h \<and> Q p) (zip names ps)"
    by (intro filter_cong) auto
  then show ?thesis by (simp add: tally_def)
qed

lemma tally_none:
  assumes "length ps = length names"
    and "\<And>j. j < length names \<Longrightarrow> names ! j = h \<Longrightarrow> \<not> P (ps ! j)"
  shows "tally P h names ps = 0"
proof -
  have "tally P h names ps = tally (\<lambda>p. False) h names ps"
    by (rule tally_cong [OF assms(1)]) (simp add: assms(2))
  then show ?thesis by (simp add: tally_def)
qed

text \<open>The mutex: kept, acquired, released.\<close>

lemma mutex_keep:
  assumes "mutex_inv s" "i < length (pcs s)" "pcs s' = (pcs s)[i := q]"
    "certMutex s' = certMutex s" "in_cs q = in_cs (pcs s ! i)"
  shows "mutex_inv s'"
  using assms by (auto simp add: mutex_inv_def nth_list_update)

lemma mutex_acquire:
  assumes "mutex_inv s" "i < length (pcs s)" "pcs s' = (pcs s)[i := q]"
    "certMutex s = None" "certMutex s' = Some i" "in_cs q"
  shows "mutex_inv s'"
  using assms by (auto simp add: mutex_inv_def nth_list_update)

lemma mutex_release:
  assumes "mutex_inv s" "i < length (pcs s)" "pcs s' = (pcs s)[i := q]"
    "in_cs (pcs s ! i)" "certMutex s' = None" "\<not> in_cs q"
  shows "mutex_inv s'"
  using assms by (auto simp add: mutex_inv_def nth_list_update)

lemma mutex_others:
  "mutex_inv s \<Longrightarrow> i < length (pcs s) \<Longrightarrow> in_cs (pcs s ! i) \<Longrightarrow> j < length (pcs s) \<Longrightarrow> j \<noteq> i
     \<Longrightarrow> \<not> in_cs (pcs s ! j)"
  by (auto simp add: mutex_inv_def)

lemma in_mint_cs: "in_mint p \<Longrightarrow> in_cs p"
  by (cases p) simp_all

lemma memo_inv_len: "memo_inv h t0 b0 n0 names s \<Longrightarrow> length (pcs s) = length names"
  by (simp add: memo_inv_def)

lemma memo_inv_mutex: "memo_inv h t0 b0 n0 names s \<Longrightarrow> mutex_inv s"
  by (simp add: memo_inv_def)

lemma memo_inv_minting:
  "memo_inv h t0 b0 n0 names s \<Longrightarrow> i < length names \<Longrightarrow> names ! i = h \<Longrightarrow> in_mint (pcs s ! i)
     \<Longrightarrow> fresh t0 (dynamicCerts s h) = None"
  by (simp add: memo_inv_def)

lemma memo_inv_result:
  "memo_inv h t0 b0 n0 names s \<Longrightarrow> i < length names \<Longrightarrow> names ! i = h
     \<Longrightarrow> result_of (pcs s ! i) = Some kp \<Longrightarrow> fresh t0 (dynamicCerts s h) = Some kp"
  by (simp add: memo_inv_def)

text \<open>A step that leaves the entry of \<open>h\<close> that counts alone.\<close>

lemma memo_inv_frame:
  assumes inv: "memo_inv h t0 b0 n0 names s" and i: "i < length names"
    and clk: "clock s' = clock s" and pc: "pcs s' = (pcs s)[i := q]"
    and cache: "fresh t0 (dynamicCerts s' h) = fresh t0 (dynamicCerts s h)"
    and mut: "mutex_inv s'"
    and mint: "names ! i = h \<Longrightarrow> in_mint q \<Longrightarrow> fresh t0 (dynamicCerts s h) = None"
    and res: "\<And>kp. names ! i = h \<Longrightarrow> result_of q = Some kp
                \<Longrightarrow> fresh t0 (dynamicCerts s h) = Some kp"
    and cnt: "count_list (signOps s') h + (if names ! i = h \<and> has_signed (pcs s ! i) then 1 else 0)
            = count_list (signOps s) h + (if names ! i = h \<and> has_signed q then 1 else 0)"
  shows "memo_inv h t0 b0 n0 names s'"
proof -
  have len: "length (pcs s) = length names" using inv by (simp add: memo_inv_def)
  have il: "i < length (pcs s)" using i len by simp
  have a: "length (pcs s') = length names" using pc len by simp
  have b: "t0 \<le> clock s'" using inv clk by (simp add: memo_inv_def)
  have d: "\<forall>j < length names. names ! j = h \<and> in_mint (pcs s' ! j)
             \<longrightarrow> fresh t0 (dynamicCerts s' h) = None"
  proof (intro allI impI)
    fix j assume j: "j < length names" and m: "names ! j = h \<and> in_mint (pcs s' ! j)"
    show "fresh t0 (dynamicCerts s' h) = None"
    proof (cases "j = i")
      case True
      then show ?thesis using m mint pc il cache by simp
    next
      case False
      then have "pcs s' ! j = pcs s ! j" using pc by simp
      then show ?thesis using memo_inv_minting [OF inv j] m cache by simp
    qed
  qed
  have e: "\<forall>j < length names. \<forall>kp. names ! j = h \<and> result_of (pcs s' ! j) = Some kp
            \<longrightarrow> fresh t0 (dynamicCerts s' h) = Some kp"
  proof (intro allI impI)
    fix j kp assume j: "j < length names" and m: "names ! j = h \<and> result_of (pcs s' ! j) = Some kp"
    show "fresh t0 (dynamicCerts s' h) = Some kp"
    proof (cases "j = i")
      case True
      then show ?thesis using m res pc il cache by simp
    next
      case False
      then have "pcs s' ! j = pcs s ! j" using pc by simp
      then show ?thesis using memo_inv_result [OF inv j] m cache by simp
    qed
  qed
  have f: "count_list (signOps s') h + b0
          = n0 + tally has_signed h names (pcs s')
            + (if fresh t0 (dynamicCerts s' h) = None then 0 else 1)"
  proof -
    have "count_list (signOps s) h + b0
          = n0 + tally has_signed h names (pcs s)
            + (if fresh t0 (dynamicCerts s h) = None then 0 else 1)"
      using inv by (simp add: memo_inv_def)
    then show ?thesis
      using tally_update [OF il i, of has_signed h q] cnt cache pc by (simp split: if_splits)
  qed
  show ?thesis unfolding memo_inv_def using a mut b d e f by blast
qed

text \<open>A lookup within the cache TTL finds the entry that counts, and only that.\<close>

lemma memo_inv_lookup:
  assumes inv: "memo_inv h t0 b0 n0 names s" and live: "unexpired h t0 s"
    and get: "cache_Get (dynamicCerts s) k (clock s) = (r, c)"
  shows "fresh t0 (c h) = fresh t0 (dynamicCerts s h)"
    and "k = h \<Longrightarrow> r = None \<Longrightarrow> fresh t0 (dynamicCerts s h) = None"
    and "k = h \<Longrightarrow> r = Some kp \<Longrightarrow> fresh t0 (dynamicCerts s h) = Some kp"
proof -
  have t0: "t0 \<le> clock s" using inv by (simp add: memo_inv_def)
  have gone: "fresh t0 (dynamicCerts s h) = None"
    if "\<And>e. dynamicCerts s h = Some e \<Longrightarrow> expiration e \<le> clock s"
  proof (cases "dynamicCerts s h")
    case None
    then show ?thesis by (simp add: fresh_def)
  next
    case (Some e)
    then show ?thesis using that [of e] live by (simp add: fresh_def unexpired_def)
  qed
  show "fresh t0 (c h) = fresh t0 (dynamicCerts s h)"
  proof (cases rule: cache_Get_cases [of "dynamicCerts s" k "clock s"])
    case (hit e)
    then show ?thesis using get by simp
  next
    case miss
    then have c: "c = (dynamicCerts s)(k := None)" using get by simp
    show ?thesis
    proof (cases "k = h")
      case True
      then show ?thesis using c gone miss(2) by (simp add: fresh_def)
    next
      case False
      then show ?thesis using c by simp
    qed
  qed
  show "fresh t0 (dynamicCerts s h) = None" if "k = h" "r = None"
  proof (cases rule: cache_Get_cases [of "dynamicCerts s" k "clock s"])
    case (hit e)
    then show ?thesis using get that by simp
  next
    case miss
    show ?thesis using gone miss(2) that(1) by simp
  qed
  show "fresh t0 (dynamicCerts s h) = Some kp" if "k = h" "r = Some kp"
  proof (cases rule: cache_Get_cases [of "dynamicCerts s" k "clock s"])
    case (hit e)
    have "t0 < expiration e" using hit(2) t0 by simp
    then show ?thesis using hit get that by (simp add: fresh_def)
  next
    case miss
    then show ?thesis using get that by simp
  qed
qed

text \<open>The insertion at line 100 for \<open>h\<close>.\<close>

lemma memo_inv_insert:
  assumes inv: "memo_inv h t0 b0 n0 names s" and i: "i < length names" and h: "names ! i = h"
    and at: "pcs s ! i = FC_L100 kp"
    and s': "s' = set_pc i (FC_Return (FcOk kp))
               (read_clock i
                  (s\<lparr>dynamicCerts :=
                       cache_Set (dynamicCerts s) (names ! i) kp (TWO_WEEKS - ONE_DAY) (clock s)\<rparr>))"
  shows "memo_inv h t0 b0 n0 names s'"
proof -
  have len: "length (pcs s) = length names" by (rule memo_inv_len [OF inv])
  have il: "i < length (pcs s)" using i len by simp
  have mi: "mutex_inv s" by (rule memo_inv_mutex [OF inv])
  have cs: "in_cs (pcs s ! i)" using at by simp
  have none: "fresh t0 (dynamicCerts s h) = None"
    using memo_inv_minting [OF inv i h] at by simp
  have pc: "pcs s' = (pcs s)[i := FC_Return (FcOk kp)]" using s' by simp
  have ch: "dynamicCerts s' h = Some \<lparr>entryData = kp, expiration = clock s + (TWO_WEEKS - ONE_DAY)\<rparr>"
    using s' h by (simp add: cache_Set_def)
  have T: "t0 < clock s + (TWO_WEEKS - ONE_DAY)"
    using inv by (simp add: memo_inv_def TWO_WEEKS_def ONE_DAY_def ONE_SECOND_def)
  have fr: "fresh t0 (dynamicCerts s' h) = Some kp" using ch T by (simp add: fresh_def)
  have a: "length (pcs s') = length names" using pc len by simp
  have m: "mutex_inv s'"
    by (rule mutex_keep [OF mi il pc]) (simp_all add: s' at)
  have b: "t0 \<le> clock s'" using inv s' by (simp add: memo_inv_def)
  have d: "\<forall>j < length names. names ! j = h \<and> in_mint (pcs s' ! j)
             \<longrightarrow> fresh t0 (dynamicCerts s' h) = None"
  proof (intro allI impI)
    fix j assume j: "j < length names" and mj: "names ! j = h \<and> in_mint (pcs s' ! j)"
    have "j \<noteq> i" using mj pc il by auto
    then have "in_mint (pcs s ! j)" using mj pc by simp
    then have "in_cs (pcs s ! j)" by (rule in_mint_cs)
    then show "fresh t0 (dynamicCerts s' h) = None"
      using mutex_others [OF mi il cs _ \<open>j \<noteq> i\<close>] j len by simp
  qed
  have e: "\<forall>j < length names. \<forall>kp'. names ! j = h \<and> result_of (pcs s' ! j) = Some kp'
            \<longrightarrow> fresh t0 (dynamicCerts s' h) = Some kp'"
  proof (intro allI impI)
    fix j kp' assume j: "j < length names"
      and mj: "names ! j = h \<and> result_of (pcs s' ! j) = Some kp'"
    show "fresh t0 (dynamicCerts s' h) = Some kp'"
    proof (cases "j = i")
      case True
      then show ?thesis using mj pc il fr by simp
    next
      case False
      then have "result_of (pcs s ! j) = Some kp'" using mj pc by simp
      then have "fresh t0 (dynamicCerts s h) = Some kp'"
        using memo_inv_result [OF inv j] mj by simp
      then show ?thesis using none by simp
    qed
  qed
  have f: "count_list (signOps s') h + b0
          = n0 + tally has_signed h names (pcs s')
            + (if fresh t0 (dynamicCerts s' h) = None then 0 else 1)"
  proof -
    have "count_list (signOps s) h + b0 = n0 + tally has_signed h names (pcs s)"
      using inv none by (simp add: memo_inv_def)
    moreover have "tally has_signed h names (pcs s') + 1 = tally has_signed h names (pcs s)"
      using tally_update [OF il i, of has_signed h "FC_Return (FcOk kp)"] at h pc by simp
    ultimately show ?thesis using fr s' by simp
  qed
  show ?thesis unfolding memo_inv_def using a m b d e f by blast
qed

lemma memo_inv_step:
  assumes inv: "memo_inv h t0 b0 n0 names s" and live: "unexpired h t0 s"
  shows "memo_inv h t0 b0 n0 names (fc_step env hw names i s)"
proof (cases "i < length (pcs s) \<and> i < length names")
  case False
  show ?thesis using inv by (simp only: fc_step_outside [OF False])
next
  case True
  then have il: "i < length (pcs s)" and inm: "i < length names" by simp_all
  have mi: "mutex_inv s" by (rule memo_inv_mutex [OF inv])
  note look = memo_inv_lookup [OF inv live]
  show ?thesis
  proof (cases "pcs s ! i")
    case FC_L71
    note st = fc_step_L71 [OF il inm FC_L71]
    obtain r c where get: "cache_Get (dynamicCerts s) (names ! i) (clock s) = (r, c)"
      by (cases "cache_Get (dynamicCerts s) (names ! i) (clock s)")
    show ?thesis
    proof (cases r)
      case None
      let ?s' = "set_pc i FC_L76 (read_clock i (s\<lparr>dynamicCerts := c\<rparr>))"
      have "memo_inv h t0 b0 n0 names ?s'"
      proof (rule memo_inv_frame [OF inv inm, where q = "FC_L76" and s' = "?s'"])
        show "mutex_inv ?s'"
          by (rule mutex_keep [OF mi il, where q = "FC_L76"]) (simp_all add: FC_L71)
      qed (simp_all add: look(1) [OF get] FC_L71)
      then show ?thesis using st(2) get None by simp
    next
      case (Some kp)
      let ?s' = "set_pc i (FC_L73 kp) (read_clock i (s\<lparr>dynamicCerts := c\<rparr>))"
      have "memo_inv h t0 b0 n0 names ?s'"
      proof (rule memo_inv_frame [OF inv inm, where q = "FC_L73 kp" and s' = "?s'"])
        show "mutex_inv ?s'"
          by (rule mutex_keep [OF mi il, where q = "FC_L73 kp"]) (simp_all add: FC_L71)
        show "fresh t0 (dynamicCerts s h) = Some kp'"
          if "names ! i = h" "result_of (FC_L73 kp) = Some kp'" for kp'
          using look(3) [OF get that(1) Some] that(2) by simp
      qed (simp_all add: look(1) [OF get] FC_L71)
      then show ?thesis using st(1) get Some by simp
    qed
  next
    case (FC_L73 kp)
    let ?s' = "set_pc i (FC_Done (FcOk kp)) s"
    have "memo_inv h t0 b0 n0 names ?s'"
    proof (rule memo_inv_frame [OF inv inm, where q = "FC_Done (FcOk kp)" and s' = "?s'"])
      show "mutex_inv ?s'"
        by (rule mutex_keep [OF mi il, where q = "FC_Done (FcOk kp)"]) (simp_all add: FC_L73)
      show "fresh t0 (dynamicCerts s h) = Some kp'"
        if "names ! i = h" "result_of (FC_Done (FcOk kp)) = Some kp'" for kp'
        using memo_inv_result [OF inv inm that(1), of kp'] that(2) FC_L73 by simp
    qed (simp_all add: FC_L73)
    then show ?thesis using fc_step_L73 [OF il inm FC_L73] by simp
  next
    case FC_L76
    note st = fc_step_L76 [OF il inm FC_L76]
    show ?thesis
    proof (cases "certMutex s")
      case None
      let ?s' = "set_pc i FC_L78 (s\<lparr>certMutex := Some i\<rparr>)"
      have "memo_inv h t0 b0 n0 names ?s'"
      proof (rule memo_inv_frame [OF inv inm, where q = "FC_L78" and s' = "?s'"])
        show "mutex_inv ?s'"
          by (rule mutex_acquire [OF mi il, where q = "FC_L78"]) (simp_all add: None)
      qed (simp_all add: FC_L76)
      then show ?thesis using st(1) None by simp
    next
      case (Some j)
      show ?thesis unfolding st(2) [OF Some] by (rule inv)
    qed
  next
    case FC_L78
    note st = fc_step_L78 [OF il inm FC_L78]
    obtain r c where get: "cache_Get (dynamicCerts s) (names ! i) (clock s) = (r, c)"
      by (cases "cache_Get (dynamicCerts s) (names ! i) (clock s)")
    show ?thesis
    proof (cases r)
      case None
      let ?s' = "set_pc i FC_L85 (read_clock i (s\<lparr>dynamicCerts := c\<rparr>))"
      have "memo_inv h t0 b0 n0 names ?s'"
      proof (rule memo_inv_frame [OF inv inm, where q = "FC_L85" and s' = "?s'"])
        show "mutex_inv ?s'"
          by (rule mutex_keep [OF mi il, where q = "FC_L85"]) (simp_all add: FC_L78)
        show "fresh t0 (dynamicCerts s h) = None" if "names ! i = h" "in_mint FC_L85"
          using look(2) [OF get that(1) None] .
      qed (simp_all add: look(1) [OF get] FC_L78)
      then show ?thesis using st(2) get None by simp
    next
      case (Some kp)
      let ?s' = "set_pc i (FC_Return (FcOk kp)) (read_clock i (s\<lparr>dynamicCerts := c\<rparr>))"
      have "memo_inv h t0 b0 n0 names ?s'"
      proof (rule memo_inv_frame [OF inv inm, where q = "FC_Return (FcOk kp)" and s' = "?s'"])
        show "mutex_inv ?s'"
          by (rule mutex_keep [OF mi il, where q = "FC_Return (FcOk kp)"]) (simp_all add: FC_L78)
        show "fresh t0 (dynamicCerts s h) = Some kp'"
          if "names ! i = h" "result_of (FC_Return (FcOk kp)) = Some kp'" for kp'
          using look(3) [OF get that(1) Some] that(2) by simp
      qed (simp_all add: look(1) [OF get] FC_L78)
      then show ?thesis using st(1) get Some by simp
    qed
  next
    case FC_L85
    note st = fc_step_L85 [OF il inm FC_L85]
    show ?thesis
    proof (cases "pk hw")
      case None
      let ?s' = "set_pc i (FC_Return FcPanic) s"
      have "memo_inv h t0 b0 n0 names ?s'"
      proof (rule memo_inv_frame [OF inv inm, where q = "FC_Return FcPanic" and s' = "?s'"])
        show "mutex_inv ?s'"
          by (rule mutex_keep [OF mi il, where q = "FC_Return FcPanic"]) (simp_all add: FC_L85)
      qed (simp_all add: FC_L85)
      then show ?thesis using st(1) None by simp
    next
      case (Some k)
      show ?thesis
      proof (cases "signRes env (length (signOps s))")
        case (SignFails e)
        let ?q = "FC_Return (FcErr (''Unable to issue certificate: '' @ e))"
        let ?s' = "set_pc i ?q (read_clock i (s\<lparr>signOps := names ! i # signOps s\<rparr>))"
        have "memo_inv h t0 b0 n0 names ?s'"
        proof (rule memo_inv_frame [OF inv inm, where q = "?q" and s' = "?s'"])
          show "mutex_inv ?s'"
            by (rule mutex_keep [OF mi il, where q = "?q"]) (simp_all add: FC_L85)
        qed (simp_all add: FC_L85)
        then show ?thesis using st(2) [OF Some SignFails] by simp
      next
        case (Signed n)
        let ?q = "FC_L94 (minted hw (names ! i) (clock s) n)"
        let ?s' = "set_pc i ?q (read_clock i (s\<lparr>signOps := names ! i # signOps s\<rparr>))"
        have "memo_inv h t0 b0 n0 names ?s'"
        proof (rule memo_inv_frame [OF inv inm, where q = "?q" and s' = "?s'"])
          show "mutex_inv ?s'"
            by (rule mutex_keep [OF mi il, where q = "?q"]) (simp_all add: FC_L85)
          show "fresh t0 (dynamicCerts s h) = None" if "names ! i = h"
            using memo_inv_minting [OF inv inm that] FC_L85 by simp
        qed (simp_all add: FC_L85)
        then show ?thesis using st(3) [OF Some Signed] by simp
      qed
    qed
  next
    case (FC_L94 c)
    note st = fc_step_L94 [OF il inm FC_L94]
    show ?thesis
    proof (cases "parseErr env (length (signOps s))")
      case None
      let ?q = "FC_L100 \<lparr>leaf = parsed_leaf c, privKeyPem = pkPem hw\<rparr>"
      let ?s' = "set_pc i ?q s"
      have "memo_inv h t0 b0 n0 names ?s'"
      proof (rule memo_inv_frame [OF inv inm, where q = "?q" and s' = "?s'"])
        show "mutex_inv ?s'"
          by (rule mutex_keep [OF mi il, where q = "?q"]) (simp_all add: FC_L94)
        show "fresh t0 (dynamicCerts s h) = None" if "names ! i = h"
          using memo_inv_minting [OF inv inm that] FC_L94 by simp
      qed (simp_all add: FC_L94)
      then show ?thesis using st(2) [OF None] by simp
    next
      case (Some e)
      let ?q = "FC_Return (FcErr (''Unable to parse keypair for tls: '' @ e))"
      let ?s' = "set_pc i ?q s"
      have "memo_inv h t0 b0 n0 names ?s'"
      proof (rule memo_inv_frame [OF inv inm, where q = "?q" and s' = "?s'"])
        show "mutex_inv ?s'"
          by (rule mutex_keep [OF mi il, where q = "?q"]) (simp_all add: FC_L94)
      qed (simp_all add: FC_L94)
      then show ?thesis using st(1) [OF Some] by simp
    qed
  next
    case (FC_L100 kp)
    note st = fc_step_L100 [OF il inm FC_L100]
    let ?s' = "set_pc i (FC_Return (FcOk kp))
               (read_clock i
                  (s\<lparr>dynamicCerts :=
                       cache_Set (dynamicCerts s) (names ! i) kp (TWO_WEEKS - ONE_DAY) (clock s)\<rparr>))"
    have "memo_inv h t0 b0 n0 names ?s'"
    proof (cases "names ! i = h")
      case True
      show ?thesis by (rule memo_inv_insert [OF inv inm True FC_L100 refl])
    next
      case False
      have same: "dynamicCerts ?s' h = dynamicCerts s h"
        using False by (simp add: cache_Set_def)
      show ?thesis
      proof (rule memo_inv_frame [OF inv inm, where q = "FC_Return (FcOk kp)" and s' = "?s'"])
        show "mutex_inv ?s'"
          by (rule mutex_keep [OF mi il, where q = "FC_Return (FcOk kp)"]) (simp_all add: FC_L100)
        show "fresh t0 (dynamicCerts ?s' h) = fresh t0 (dynamicCerts s h)"
          using same by simp
      qed (use False in \<open>simp_all add: FC_L100\<close>)
    qed
    then show ?thesis using st by simp
  next
    case (FC_Return r)
    let ?s' = "set_pc i (FC_Done r) (s\<lparr>certMutex := None\<rparr>)"
    have "memo_inv h t0 b0 n0 names ?s'"
    proof (rule memo_inv_frame [OF inv inm, where q = "FC_Done r" and s' = "?s'"])
      show "mutex_inv ?s'"
        by (rule mutex_release [OF mi il, where q = "FC_Done r"]) (simp_all add: FC_Return)
      show "fresh t0 (dynamicCerts s h) = Some kp'"
        if "names ! i = h" "result_of (FC_Done r) = Some kp'" for kp'
      proof -
        have "result_of (FC_Return r) = Some kp'"
          using that(2) by (cases r) simp_all
        then show ?thesis using memo_inv_result [OF inv inm that(1), of kp'] FC_Return by simp
      qed
      show "count_list (signOps ?s') h
              + (if names ! i = h \<and> has_signed (pcs s ! i) then 1 else 0)
          = count_list (signOps s) h + (if names ! i = h \<and> has_signed (FC_Done r) then 1 else 0)"
        using FC_Return by (cases r) simp_all
    qed (simp_all add: FC_Return)
    then show ?thesis using fc_step_Return [OF il inm FC_Return] by simp
  next
    case (FC_Done r)
    show ?thesis unfolding fc_step_Done [OF il inm FC_Done] by (rule inv)
  qed
qed

lemma memo_inv_tick:
  assumes "memo_inv h t0 b0 n0 names s" "0 \<le> d"
  shows "memo_inv h t0 b0 n0 names (s\<lparr>clock := clock s + d\<rparr>)"
  using assms by (auto simp add: memo_inv_def mutex_inv_def)

lemma memo_inv_run:
  "memo_inv h t0 b0 n0 names s \<Longrightarrow> ticks_ok sch \<Longrightarrow> within_ttl h t0 env hw names sch s
     \<Longrightarrow> memo_inv h t0 b0 n0 names (fc_run env hw names sch s)"
proof (induction sch arbitrary: s)
  case Nil
  then show ?case by simp
next
  case (Cons a sch)
  show ?case
  proof (cases a)
    case (Step i)
    have ok: "ticks_ok sch" and live: "unexpired h t0 s"
      and rest: "within_ttl h t0 env hw names sch (fc_step env hw names i s)"
      using Cons.prems Step by simp_all
    have "memo_inv h t0 b0 n0 names (fc_step env hw names i s)"
      by (rule memo_inv_step [OF Cons.prems(1) live])
    then show ?thesis using Cons.IH ok rest Step by simp
  next
    case (Tick d)
    have ok: "ticks_ok sch" and d: "0 \<le> d"
      and rest: "within_ttl h t0 env hw names sch (s\<lparr>clock := clock s + d\<rparr>)"
      using Cons.prems Tick by simp_all
    have "memo_inv h t0 b0 n0 names (s\<lparr>clock := clock s + d\<rparr>)"
      by (rule memo_inv_tick [OF Cons.prems(1) d])
    then show ?thesis using Cons.IH [of "s\<lparr>clock := clock s + d\<rparr>"] ok rest Tick by simp
  qed
qed

lemma within_ttl_final:
  "within_ttl h t0 env hw names sch s \<Longrightarrow> unexpired h t0 (fc_run env hw names sch s)"
  by (induction sch arbitrary: s) simp_all

lemma before_lookup_facts:
  "before_lookup p \<Longrightarrow> \<not> in_mint p \<and> result_of p = None \<and> \<not> has_signed p \<and> \<not> is_bad p"
  by (cases p) simp_all

lemma memo_inv_start:
  assumes "window_start h names s"
  shows "memo_inv h (clock s) (if live_entry h s then 1 else 0) (count_list (signOps s) h) names s"
proof -
  have len: "length (pcs s) = length names" and mi: "mutex_inv s"
    and bl: "\<And>i. i < length names \<Longrightarrow> names ! i = h \<Longrightarrow> before_lookup (pcs s ! i)"
    using assms by (simp_all add: window_start_def)
  have fr: "(fresh (clock s) (dynamicCerts s h) = None) = (\<not> live_entry h s)"
    by (auto simp add: fresh_def live_entry_def split: option.splits)
  have t: "tally has_signed h names (pcs s) = 0"
    by (rule tally_none [OF len]) (use bl before_lookup_facts in blast)
  have d: "\<forall>i < length names. names ! i = h \<and> in_mint (pcs s ! i)
             \<longrightarrow> fresh (clock s) (dynamicCerts s h) = None"
    using bl before_lookup_facts by blast
  have e: "\<forall>i < length names. \<forall>kp. names ! i = h \<and> result_of (pcs s ! i) = Some kp
            \<longrightarrow> fresh (clock s) (dynamicCerts s h) = Some kp"
    using bl before_lookup_facts by fastforce
  have f: "count_list (signOps s) h + (if live_entry h s then 1 else 0)
          = count_list (signOps s) h + tally has_signed h names (pcs s)
            + (if fresh (clock s) (dynamicCerts s h) = None then 0 else 1)"
    using t fr by simp
  show ?thesis unfolding memo_inv_def using len mi d e f by simp
qed

text \<open>
  What a step does to the entry of a host: nothing, or it evicts it, or it inserts one
  that expires the cache TTL from now.
\<close>

lemma step_entry:
  "dynamicCerts (fc_step env hw names i s) h = dynamicCerts s h
   \<or> dynamicCerts (fc_step env hw names i s) h = None
   \<or> (\<exists>kp. dynamicCerts (fc_step env hw names i s) h
            = Some \<lparr>entryData = kp, expiration = clock s + (TWO_WEEKS - ONE_DAY)\<rparr>)"
proof (cases "i < length (pcs s) \<and> i < length names")
  case False
  show ?thesis by (simp add: fc_step_outside [OF False])
next
  case True
  then have il: "i < length (pcs s)" and inm: "i < length names" by simp_all
  have get: "c h = dynamicCerts s h \<or> c h = None"
    if g: "cache_Get (dynamicCerts s) k (clock s) = (r, c)" for k r c
  proof (cases rule: cache_Get_cases [of "dynamicCerts s" k "clock s"])
    case (hit e)
    then show ?thesis using g by simp
  next
    case miss
    then have "c = (dynamicCerts s)(k := None)" using g by simp
    then show ?thesis by (cases "h = k") simp_all
  qed
  show ?thesis
  proof (cases "pcs s ! i")
    case FC_L71
    obtain r c where g: "cache_Get (dynamicCerts s) (names ! i) (clock s) = (r, c)"
      by (cases "cache_Get (dynamicCerts s) (names ! i) (clock s)")
    show ?thesis
    proof (cases r)
      case None
      have "fc_step env hw names i s = set_pc i FC_L76 (read_clock i (s\<lparr>dynamicCerts := c\<rparr>))"
        using fc_step_L71(2) [OF il inm FC_L71] g None by simp
      then show ?thesis using get [OF g] by auto
    next
      case (Some kp)
      have "fc_step env hw names i s = set_pc i (FC_L73 kp) (read_clock i (s\<lparr>dynamicCerts := c\<rparr>))"
        using fc_step_L71(1) [OF il inm FC_L71] g Some by simp
      then show ?thesis using get [OF g] by auto
    qed
  next
    case (FC_L73 kp)
    show ?thesis by (simp add: fc_step_L73 [OF il inm FC_L73])
  next
    case FC_L76
    show ?thesis
    proof (cases "certMutex s")
      case None
      show ?thesis by (simp add: fc_step_L76(1) [OF il inm FC_L76 None])
    next
      case (Some j)
      show ?thesis by (simp add: fc_step_L76(2) [OF il inm FC_L76 Some])
    qed
  next
    case FC_L78
    obtain r c where g: "cache_Get (dynamicCerts s) (names ! i) (clock s) = (r, c)"
      by (cases "cache_Get (dynamicCerts s) (names ! i) (clock s)")
    show ?thesis
    proof (cases r)
      case None
      have "fc_step env hw names i s = set_pc i FC_L85 (read_clock i (s\<lparr>dynamicCerts := c\<rparr>))"
        using fc_step_L78(2) [OF il inm FC_L78] g None by simp
      then show ?thesis using get [OF g] by auto
    next
      case (Some kp)
      have "fc_step env hw names i s
          = set_pc i (FC_Return (FcOk kp)) (read_clock i (s\<lparr>dynamicCerts := c\<rparr>))"
        using fc_step_L78(1) [OF il inm FC_L78] g Some by simp
      then show ?thesis using get [OF g] by auto
    qed
  next
    case FC_L85
    note st = fc_step_L85 [OF il inm FC_L85]
    show ?thesis
    proof (cases "pk hw")
      case None
      show ?thesis by (simp add: st(1) [OF None])
    next
      case (Some k)
      show ?thesis
        by (cases "signRes env (length (signOps s))") (simp_all add: st(2,3) [OF Some])
    qed
  next
    case (FC_L94 c)
    show ?thesis
    proof (cases "parseErr env (length (signOps s))")
      case None
      show ?thesis by (simp add: fc_step_L94(2) [OF il inm FC_L94 None])
    next
      case (Some e)
      show ?thesis by (simp add: fc_step_L94(1) [OF il inm FC_L94 Some])
    qed
  next
    case (FC_L100 kp)
    show ?thesis by (simp add: fc_step_L100 [OF il inm FC_L100] cache_Set_def)
  next
    case (FC_Return r)
    show ?thesis by (simp add: fc_step_Return [OF il inm FC_Return])
  next
    case (FC_Done r)
    show ?thesis by (simp add: fc_step_Done [OF il inm FC_Done])
  qed
qed

lemma TTL_pos: "0 < TWO_WEEKS - ONE_DAY"
  by (simp add: TWO_WEEKS_def ONE_DAY_def ONE_SECOND_def)

lemma unexpired_step:
  assumes "unexpired h t0 s"
  shows "unexpired h t0 (fc_step env hw names i s)"
  using assms step_entry [of env hw names i s h] TTL_pos
  by (auto simp add: unexpired_def fc_step_clock split: option.splits)

text \<open>
  A run that ends before \<open>window_end\<close> is within the cache TTL: every entry for
  \<open>h\<close> in it had expired when it began or expires at \<open>T\<close> or later.
\<close>

lemma within_ttl_before:
  assumes "\<And>e. dynamicCerts s h = Some e \<Longrightarrow> expiration e \<le> t0 \<or> T \<le> expiration e"
    and "T \<le> clock s + (TWO_WEEKS - ONE_DAY)" and "ticks_ok sch" and "clock s + elapsed sch < T"
  shows "within_ttl h t0 env hw names sch s"
  using assms
proof (induction sch arbitrary: s)
  case Nil
  then show ?case by (auto simp add: unexpired_def split: option.splits)
next
  case (Cons a sch)
  have ok: "ticks_ok sch" using Cons.prems(3) by (cases a) simp_all
  have "clock s \<le> clock s + elapsed (a # sch)"
    using elapsed_nonneg [OF Cons.prems(3)] by simp
  then have now: "clock s < T" using Cons.prems(4) by simp
  have here: "unexpired h t0 s"
    using Cons.prems(1) now by (auto simp add: unexpired_def split: option.splits)
  show ?case
  proof (cases a)
    case (Step i)
    let ?s = "fc_step env hw names i s"
    have "expiration e \<le> t0 \<or> T \<le> expiration e" if e: "dynamicCerts ?s h = Some e" for e
      using step_entry [of env hw names i s h]
    proof (elim disjE exE)
      assume "dynamicCerts ?s h = dynamicCerts s h"
      then have "dynamicCerts s h = Some e" using e by simp
      then show ?thesis by (rule Cons.prems(1))
    next
      assume "dynamicCerts ?s h = None"
      then show ?thesis using e by simp
    next
      fix kp
      assume "dynamicCerts ?s h
            = Some \<lparr>entryData = kp, expiration = clock s + (TWO_WEEKS - ONE_DAY)\<rparr>"
      then have "expiration e = clock s + (TWO_WEEKS - ONE_DAY)" using e by auto
      then show ?thesis using Cons.prems(2) by simp
    qed
    moreover have "T \<le> clock ?s + (TWO_WEEKS - ONE_DAY)"
      using Cons.prems(2) by (simp add: fc_step_clock)
    moreover have "clock ?s + elapsed sch < T"
      using Cons.prems(4) Step by (simp add: fc_step_clock)
    ultimately have "within_ttl h t0 env hw names sch ?s"
      using Cons.IH ok by blast
    then show ?thesis using here Step by simp
  next
    case (Tick d)
    let ?s = "s\<lparr>clock := clock s + d\<rparr>"
    have d: "0 \<le> d" using Cons.prems(3) Tick by simp
    have "expiration e \<le> t0 \<or> T \<le> expiration e" if "dynamicCerts ?s h = Some e" for e
      using that Cons.prems(1) by simp
    moreover have "T \<le> clock ?s + (TWO_WEEKS - ONE_DAY)"
      using Cons.prems(2) d by simp
    moreover have "clock ?s + elapsed sch < T"
      using Cons.prems(4) Tick by simp
    ultimately have "within_ttl h t0 env hw names sch ?s"
      using Cons.IH ok by blast
    then show ?thesis using here Tick by simp
  qed
qed

lemma within_ttl_window_end:
  assumes "ticks_ok sch" "clock s + elapsed sch < window_end h s"
  shows "within_ttl h (clock s) env hw names sch s"
proof (rule within_ttl_before [OF _ _ assms])
  show "expiration e \<le> clock s \<or> window_end h s \<le> expiration e"
    if "dynamicCerts s h = Some e" for e
    using that by (simp add: window_end_def)
  show "window_end h s \<le> clock s + (TWO_WEEKS - ONE_DAY)"
    by (simp add: window_end_def split: option.splits)
qed

text \<open>Scheduling: a call that cannot move stays, and a call that moves has less before it.\<close>

lemma step_blocked: "\<not> can_step names s i \<Longrightarrow> fc_step env hw names i s = s"
  by (auto simp add: can_step_def fc_step_def split: fc_pc.splits option.splits)

lemma step_moves:
  assumes "can_step names s i"
  shows "\<exists>q. pcs (fc_step env hw names i s) = (pcs s)[i := q] \<and> remaining q < remaining (pcs s ! i)"
proof -
  have il: "i < length (pcs s)" and inm: "i < length names"
    using assms by (simp_all add: can_step_def)
  show ?thesis
  proof (cases "pcs s ! i")
    case FC_L71
    note st = fc_step_L71 [OF il inm FC_L71]
    obtain r c where get: "cache_Get (dynamicCerts s) (names ! i) (clock s) = (r, c)"
      by (cases "cache_Get (dynamicCerts s) (names ! i) (clock s)")
    show ?thesis
    proof (cases r)
      case None
      show ?thesis using st(2) get None FC_L71 by (intro exI [of _ FC_L76]) simp
    next
      case (Some kp)
      show ?thesis using st(1) get Some FC_L71 by (intro exI [of _ "FC_L73 kp"]) simp
    qed
  next
    case (FC_L73 kp)
    show ?thesis using fc_step_L73 [OF il inm FC_L73] FC_L73
      by (intro exI [of _ "FC_Done (FcOk kp)"]) simp
  next
    case FC_L76
    then have "certMutex s = None" using assms by (simp add: can_step_def)
    then show ?thesis using fc_step_L76(1) [OF il inm FC_L76] FC_L76
      by (intro exI [of _ FC_L78]) simp
  next
    case FC_L78
    note st = fc_step_L78 [OF il inm FC_L78]
    obtain r c where get: "cache_Get (dynamicCerts s) (names ! i) (clock s) = (r, c)"
      by (cases "cache_Get (dynamicCerts s) (names ! i) (clock s)")
    show ?thesis
    proof (cases r)
      case None
      show ?thesis using st(2) get None FC_L78 by (intro exI [of _ FC_L85]) simp
    next
      case (Some kp)
      show ?thesis using st(1) get Some FC_L78 by (intro exI [of _ "FC_Return (FcOk kp)"]) simp
    qed
  next
    case FC_L85
    note st = fc_step_L85 [OF il inm FC_L85]
    show ?thesis
    proof (cases "pk hw")
      case None
      show ?thesis using st(1) [OF None] FC_L85 by (intro exI [of _ "FC_Return FcPanic"]) simp
    next
      case (Some k)
      show ?thesis
      proof (cases "signRes env (length (signOps s))")
        case (SignFails e)
        show ?thesis using st(2) [OF Some SignFails] FC_L85
          by (intro exI [of _ "FC_Return (FcErr (''Unable to issue certificate: '' @ e))"]) simp
      next
        case (Signed n)
        show ?thesis using st(3) [OF Some Signed] FC_L85
          by (intro exI [of _ "FC_L94 (minted hw (names ! i) (clock s) n)"]) simp
      qed
    qed
  next
    case (FC_L94 c)
    note st = fc_step_L94 [OF il inm FC_L94]
    show ?thesis
    proof (cases "parseErr env (length (signOps s))")
      case None
      show ?thesis using st(2) [OF None] FC_L94
        by (intro exI [of _ "FC_L100 \<lparr>leaf = parsed_leaf c, privKeyPem = pkPem hw\<rparr>"]) simp
    next
      case (Some e)
      show ?thesis using st(1) [OF Some] FC_L94
        by (intro exI [of _ "FC_Return (FcErr (''Unable to parse keypair for tls: '' @ e))"]) simp
    qed
  next
    case (FC_L100 kp)
    show ?thesis using fc_step_L100 [OF il inm FC_L100] FC_L100
      by (intro exI [of _ "FC_Return (FcOk kp)"]) simp
  next
    case (FC_Return r)
    show ?thesis using fc_step_Return [OF il inm FC_Return] FC_Return
      by (intro exI [of _ "FC_Done r"]) simp
  next
    case (FC_Done r)
    then show ?thesis using assms by (simp add: can_step_def)
  qed
qed

lemma work_update:
  "i < length ps \<Longrightarrow> work (ps[i := q]) + remaining (ps ! i) = work ps + remaining q"
proof (induction ps arbitrary: i)
  case Nil
  then show ?case by simp
next
  case (Cons p ps)
  show ?case
  proof (cases i)
    case 0
    then show ?thesis by (simp add: work_def)
  next
    case (Suc k)
    then have "k < length ps" using Cons.prems by simp
    from Cons.IH [OF this] show ?thesis using Suc by (simp add: work_def)
  qed
qed

lemma step_work:
  assumes "can_step names s i"
  shows "work (pcs (fc_step env hw names i s)) < work (pcs s)"
proof -
  obtain q where q: "pcs (fc_step env hw names i s) = (pcs s)[i := q]"
    "remaining q < remaining (pcs s ! i)"
    using step_moves [OF assms] by blast
  have "i < length (pcs s)" using assms by (simp add: can_step_def)
  from work_update [OF this, of q] show ?thesis using q by simp
qed

lemma remaining_le: "remaining p \<le> 7"
  by (cases p) simp_all

lemma work_le: "work ps \<le> 7 * length ps"
proof (induction ps)
  case Nil
  then show ?case by (simp add: work_def)
next
  case (Cons p ps)
  then show ?case using remaining_le [of p] by (simp add: work_def)
qed

lemma moves_bound:
  "fc_moves env hw names sch s + work (pcs (fc_run env hw names sch s)) \<le> work (pcs s)"
proof (induction sch arbitrary: s)
  case Nil
  then show ?case by simp
next
  case (Cons a sch)
  show ?case
  proof (cases a)
    case (Step i)
    show ?thesis
    proof (cases "can_step names s i")
      case True
      from step_work [OF True, of env hw] Cons.IH [of "fc_step env hw names i s"]
      show ?thesis using Step True by simp
    next
      case False
      from step_blocked [OF False, of env hw] Cons.IH [of s]
      show ?thesis using Step False by simp
    qed
  next
    case (Tick d)
    from Cons.IH [of "s\<lparr>clock := clock s + d\<rparr>"] show ?thesis using Tick by simp
  qed
qed

text \<open>No deadlock: when no call can move, every call has returned.\<close>

lemma quiescent_done:
  assumes mi: "mutex_inv s" and len: "length (pcs s) = length names"
    and q: "\<forall>k < length names. \<not> can_step names s k"
    and k: "k < length names"
  shows "is_done (pcs s ! k)"
proof (rule ccontr)
  assume nd: "\<not> is_done (pcs s ! k)"
  have "\<not> can_step names s k" using q k by simp
  then have "pcs s ! k = FC_L76 \<and> certMutex s \<noteq> None"
    using nd k len by (cases "pcs s ! k") (simp_all add: can_step_def)
  then obtain j where j: "certMutex s = Some j" by auto
  then have jl: "j < length (pcs s)" and cs: "in_cs (pcs s ! j)"
    using mi by (auto simp add: mutex_inv_def)
  have "can_step names s j"
    using jl len cs by (cases "pcs s ! j") (simp_all add: can_step_def)
  then show False using q jl len by simp
qed

text \<open>Without failures no call ends without a key pair.\<close>

lemma step_not_bad:
  assumes nf: "no_failure env hw" and ok: "\<not> is_bad (pcs s ! i)"
  shows "\<not> is_bad (pcs (fc_step env hw names k s) ! i)"
proof (cases "can_step names s k")
  case False
  show ?thesis using ok by (simp add: step_blocked [OF False])
next
  case True
  then have kl: "k < length (pcs s)" and kn: "k < length names" by (simp_all add: can_step_def)
  show ?thesis
  proof (cases "i = k")
    case False
    obtain q where "pcs (fc_step env hw names k s) = (pcs s)[k := q]"
      using step_moves [OF True] by blast
    then show ?thesis using ok False by simp
  next
    case same: True
    obtain k' where pk: "pk hw = Some k'" using nf by (auto simp add: no_failure_def)
    obtain n where sg: "signRes env (length (signOps s)) = Signed n"
      using nf by (auto simp add: no_failure_def)
    have pe: "parseErr env (length (signOps s)) = None"
      using nf by (simp add: no_failure_def)
    show ?thesis
    proof (cases "pcs s ! k")
      case FC_L71
      note st = fc_step_L71 [OF kl kn FC_L71]
      obtain r c where get: "cache_Get (dynamicCerts s) (names ! k) (clock s) = (r, c)"
        by (cases "cache_Get (dynamicCerts s) (names ! k) (clock s)")
      show ?thesis
      proof (cases r)
        case None
        show ?thesis using st(2) get None kl same by simp
      next
        case (Some kp)
        show ?thesis using st(1) get Some kl same by simp
      qed
    next
      case (FC_L73 kp)
      show ?thesis using fc_step_L73 [OF kl kn FC_L73] kl same by simp
    next
      case FC_L76
      then have "certMutex s = None" using True by (simp add: can_step_def)
      then show ?thesis using fc_step_L76(1) [OF kl kn FC_L76] kl same by simp
    next
      case FC_L78
      note st = fc_step_L78 [OF kl kn FC_L78]
      obtain r c where get: "cache_Get (dynamicCerts s) (names ! k) (clock s) = (r, c)"
        by (cases "cache_Get (dynamicCerts s) (names ! k) (clock s)")
      show ?thesis
      proof (cases r)
        case None
        show ?thesis using st(2) get None kl same by simp
      next
        case (Some kp)
        show ?thesis using st(1) get Some kl same by simp
      qed
    next
      case FC_L85
      show ?thesis using fc_step_L85(3) [OF kl kn FC_L85 pk sg] kl same by simp
    next
      case (FC_L94 c)
      show ?thesis using fc_step_L94(2) [OF kl kn FC_L94 pe] kl same by simp
    next
      case (FC_L100 kp)
      show ?thesis using fc_step_L100 [OF kl kn FC_L100] kl same by simp
    next
      case (FC_Return r)
      have "\<not> is_bad (FC_Done r)" using ok same FC_Return by (cases r) simp_all
      then show ?thesis using fc_step_Return [OF kl kn FC_Return] kl same by simp
    next
      case (FC_Done r)
      then show ?thesis using True by (simp add: can_step_def)
    qed
  qed
qed

lemma run_not_bad:
  "no_failure env hw \<Longrightarrow> \<not> is_bad (pcs s ! i) \<Longrightarrow> \<not> is_bad (pcs (fc_run env hw names sch s) ! i)"
proof (induction sch arbitrary: s)
  case Nil
  then show ?case by simp
next
  case (Cons a sch)
  show ?case
  proof (cases a)
    case (Step k)
    have "\<not> is_bad (pcs (fc_step env hw names k s) ! i)"
      by (rule step_not_bad [OF Cons.prems])
    then show ?thesis using Cons.IH [OF Cons.prems(1)] Step by simp
  next
    case (Tick d)
    have "\<not> is_bad (pcs (s\<lparr>clock := clock s + d\<rparr>) ! i)" using Cons.prems(2) by simp
    then show ?thesis using Cons.IH [OF Cons.prems(1)] Tick by simp
  qed
qed

lemma fc_run_clock: "clock (fc_run env hw names sch s) = clock s + elapsed sch"
proof (induction sch arbitrary: s)
  case Nil
  then show ?case by simp
next
  case (Cons a sch)
  then show ?case by (cases a) (simp_all add: fc_step_clock)
qed

text \<open>Within the window the calls can always be run to their end.\<close>

lemma can_finish:
  assumes "memo_inv h t0 b0 n0 names s" "unexpired h t0 s"
  shows "\<exists>sch'. ticks_ok sch' \<and> elapsed sch' = 0
            \<and> (\<forall>k < length names. is_done (pcs (fc_run env hw names sch' s) ! k))"
  using assms
proof (induction "work (pcs s)" arbitrary: s rule: less_induct)
  case less
  show ?case
  proof (cases "\<forall>k < length names. \<not> can_step names s k")
    case True
    have "\<forall>k < length names. is_done (pcs s ! k)"
      using quiescent_done [OF memo_inv_mutex [OF less.prems(1)] memo_inv_len [OF less.prems(1)] True]
      by blast
    then show ?thesis by (intro exI [of _ "[]"]) simp
  next
    case False
    then obtain k where k: "can_step names s k" by blast
    let ?s = "fc_step env hw names k s"
    have w: "work (pcs ?s) < work (pcs s)" by (rule step_work [OF k])
    have inv: "memo_inv h t0 b0 n0 names ?s" by (rule memo_inv_step [OF less.prems])
    have clk: "unexpired h t0 ?s" by (rule unexpired_step [OF less.prems(2)])
    from less.hyps [OF w inv clk] obtain sch' where sch': "ticks_ok sch'" "elapsed sch' = 0"
      "\<forall>k < length names. is_done (pcs (fc_run env hw names sch' ?s) ! k)"
      by blast
    then show ?thesis by (intro exI [of _ "Step k # sch'"]) simp
  qed
qed

lemma done_ok: "is_done p \<Longrightarrow> \<not> is_bad p \<Longrightarrow> \<exists>kp. p = FC_Done (FcOk kp)"
  by (cases "p" rule: is_bad.cases) simp_all

lemma fresh_entry: "fresh t0 ce = Some kp \<Longrightarrow> map_option entryData ce = Some kp"
  by (cases ce) (simp_all add: fresh_def split: if_splits)

text \<open>
  C4. Take any number of calls of \<^verbatim>\<open>FakeCertForName\<close>, interleaved in any way, from any
  state in which no call for the host \<open>h\<close> has yet found or begun to make a key pair,
  running within the cache TTL: the entry for \<open>h\<close>, the one the cache has at the
  start if it is unexpired, else the one the first call makes, does not expire in the run
  (as in every run of less than the TTL that ends before an entry unexpired at the start
  expires). The calls take at most seven statements each, when none of them can move
  every call has returned, and from every state of the run they can be run to their
  return without more time passing. Any two
  calls for \<open>h\<close> that return a key pair return the same one, the cached one, and the
  signing operations for \<open>h\<close> in the run, with the one that made the entry when it was
  there at the start, are exactly one besides those of the calls for \<open>h\<close> that failed.
  When signing and parsing do not fail, every call for \<open>h\<close> returns that one key pair
  and exactly one signing operation was performed for it.
\<close>

theorem fake_cert_memoized:
  assumes start: "window_start h names s0"
    and ticks: "ticks_ok sch" and within: "within_ttl h (clock s0) env hw names sch s0"
    and s: "s = fc_run env hw names sch s0"
  shows "fc_moves env hw names sch s0 \<le> 7 * length names
       \<and> ((\<forall>k < length names. \<not> can_step names s k)
            \<longrightarrow> (\<forall>k < length names. is_done (pcs s ! k)))
       \<and> (\<exists>sch'. ticks_ok sch' \<and> elapsed sch' = 0
             \<and> (\<forall>k < length names. is_done (pcs (fc_run env hw names sch' s) ! k)))
       \<and> (\<forall>i < length names. \<forall>j < length names. \<forall>kp1 kp2.
            names ! i = h \<and> names ! j = h
            \<and> pcs s ! i = FC_Done (FcOk kp1) \<and> pcs s ! j = FC_Done (FcOk kp2)
            \<longrightarrow> kp1 = kp2
              \<and> map_option entryData (dynamicCerts s h) = Some kp1
              \<and> count_list (signOps s) h + (if live_entry h s0 then 1 else 0)
                  = count_list (signOps s0) h + 1 + failures h names (pcs s))
       \<and> (no_failure env hw \<and> (\<forall>k < length names. \<not> can_step names s k)
            \<longrightarrow> (\<exists>kp. \<forall>i < length names. names ! i = h \<longrightarrow> pcs s ! i = FC_Done (FcOk kp))
              \<and> ((\<exists>i < length names. names ! i = h)
                   \<longrightarrow> count_list (signOps s) h + (if live_entry h s0 then 1 else 0)
                       = count_list (signOps s0) h + 1))"
proof -
  let ?t0 = "clock s0"
  let ?n0 = "count_list (signOps s0) h"
  let ?b0 = "if live_entry h s0 then 1 else 0 :: nat"
  have len0: "length (pcs s0) = length names" using start by (simp add: window_start_def)
  have inv: "memo_inv h ?t0 ?b0 ?n0 names s"
    unfolding s by (rule memo_inv_run [OF memo_inv_start [OF start] ticks within])
  have len: "length (pcs s) = length names" by (rule memo_inv_len [OF inv])
  have mi: "mutex_inv s" by (rule memo_inv_mutex [OF inv])
  have a: "fc_moves env hw names sch s0 \<le> 7 * length names"
    using moves_bound [of env hw names sch s0] work_le [of "pcs s0"] len0 by simp
  have b: "\<forall>k < length names. is_done (pcs s ! k)"
    if "\<forall>k < length names. \<not> can_step names s k"
    using quiescent_done [OF mi len that] by blast
  have "unexpired h ?t0 s" unfolding s by (rule within_ttl_final [OF within])
  then have fin: "\<exists>sch'. ticks_ok sch' \<and> elapsed sch' = 0
             \<and> (\<forall>k < length names. is_done (pcs (fc_run env hw names sch' s) ! k))"
    by (rule can_finish [OF inv])
  have agree: "kp1 = kp2 \<and> map_option entryData (dynamicCerts s h) = Some kp1
      \<and> count_list (signOps s) h + ?b0 = ?n0 + 1 + failures h names (pcs s)"
    if i: "i < length names" "names ! i = h" "pcs s ! i = FC_Done (FcOk kp1)"
      and j: "j < length names" "names ! j = h" "pcs s ! j = FC_Done (FcOk kp2)"
    for i j kp1 kp2
  proof -
    have c1: "fresh ?t0 (dynamicCerts s h) = Some kp1"
      using memo_inv_result [OF inv i(1,2), of kp1] i(3) by simp
    have c2: "fresh ?t0 (dynamicCerts s h) = Some kp2"
      using memo_inv_result [OF inv j(1,2), of kp2] j(3) by simp
    have idle: "\<not> in_mint (pcs s ! k)" if "k < length names" "names ! k = h" for k
      using memo_inv_minting [OF inv that] c1 by auto
    have "has_signed (pcs s ! k) = is_failed (pcs s ! k)"
      if "k < length names" "names ! k = h" for k
      using idle [OF that] by (cases "pcs s ! k" rule: has_signed.cases) simp_all
    then have "tally has_signed h names (pcs s) = tally is_failed h names (pcs s)"
      by (rule tally_cong [OF len])
    moreover have "count_list (signOps s) h + ?b0 = ?n0 + tally has_signed h names (pcs s) + 1"
      using inv c1 by (simp add: memo_inv_def)
    ultimately have "count_list (signOps s) h + ?b0 = ?n0 + 1 + failures h names (pcs s)"
      by (simp add: failures_def)
    then show ?thesis using c1 c2 fresh_entry [OF c1] by simp
  qed
  have c: "\<forall>i < length names. \<forall>j < length names. \<forall>kp1 kp2.
            names ! i = h \<and> names ! j = h
            \<and> pcs s ! i = FC_Done (FcOk kp1) \<and> pcs s ! j = FC_Done (FcOk kp2)
            \<longrightarrow> kp1 = kp2
              \<and> map_option entryData (dynamicCerts s h) = Some kp1
              \<and> count_list (signOps s) h + ?b0 = ?n0 + 1 + failures h names (pcs s)"
    using agree by blast
  have d: "(\<exists>kp. \<forall>i < length names. names ! i = h \<longrightarrow> pcs s ! i = FC_Done (FcOk kp))
         \<and> ((\<exists>i < length names. names ! i = h)
              \<longrightarrow> count_list (signOps s) h + ?b0 = ?n0 + 1)"
    if nf: "no_failure env hw" and q: "\<forall>k < length names. \<not> can_step names s k"
  proof -
    have good: "\<not> is_bad (pcs s ! i)" if "i < length names" "names ! i = h" for i
    proof -
      have "before_lookup (pcs s0 ! i)" using start that by (simp add: window_start_def)
      then have "\<not> is_bad (pcs s0 ! i)" using before_lookup_facts by blast
      then show ?thesis unfolding s by (rule run_not_bad [OF nf])
    qed
    have ret: "\<exists>kp. pcs s ! i = FC_Done (FcOk kp)" if "i < length names" "names ! i = h" for i
      using done_ok [OF _ good [OF that]] b [OF q] that(1) by blast
    show ?thesis
    proof (cases "\<exists>i < length names. names ! i = h")
      case False
      then show ?thesis by auto
    next
      case True
      then obtain i0 where i0: "i0 < length names" "names ! i0 = h" by blast
      then obtain kp0 where kp0: "pcs s ! i0 = FC_Done (FcOk kp0)" using ret by blast
      have all: "pcs s ! i = FC_Done (FcOk kp0)" if i: "i < length names" "names ! i = h" for i
      proof -
        obtain kp where kp: "pcs s ! i = FC_Done (FcOk kp)" using ret [OF i] by blast
        then have "kp = kp0" using agree [OF i kp i0 kp0] by simp
        then show ?thesis using kp by simp
      qed
      have "\<not> is_failed (pcs s ! i)" if "i < length names" "names ! i = h" for i
        using all [OF that] by simp
      then have "failures h names (pcs s) = 0"
        unfolding failures_def by (intro tally_none [OF len]) simp
      then have "count_list (signOps s) h + ?b0 = ?n0 + 1"
        using agree [OF i0 kp0 i0 kp0] by simp
      then show ?thesis using all by blast
    qed
  qed
  show ?thesis using a b fin c d by blast
qed

lemma racing_state:
  "pcs (fc_run ok_cert_env example_wrapper two_calls racing later_start)
     = [FC_Done (FcOk second_keypair), FC_Done (FcOk second_keypair)]"
  "signOps (fc_run ok_cert_env example_wrapper two_calls racing later_start)
     = [''example.test'', ''example.test'']"
  by (simp_all add: racing_def later_start_def second_keypair_def old_keypair_def fc_eval
      TWO_WEEKS_def ONE_DAY_def ONE_SECOND_def)

lemma later_start_ok: "window_start ''example.test'' two_calls later_start"
  by (auto simp add: window_start_def mutex_inv_def later_start_def two_calls_def less_Suc_eq)

lemma later_start_window:
  "\<not> live_entry ''example.test'' later_start"
  "clock later_start + elapsed racing < window_end ''example.test'' later_start"
  by (simp_all add: live_entry_def window_end_def later_start_def racing_def NewCache_def
      TWO_WEEKS_def ONE_DAY_def ONE_SECOND_def)

lemma racing_within:
  "within_ttl ''example.test'' (clock later_start) ok_cert_env example_wrapper two_calls racing
     later_start"
  by (rule within_ttl_window_end [OF _ later_start_window(2)]) (simp add: racing_def)

theorem fake_cert_memoized_witness:
  "window_start ''example.test'' two_calls later_start
   \<and> ticks_ok racing
   \<and> within_ttl ''example.test'' (clock later_start) ok_cert_env example_wrapper two_calls racing
        later_start
   \<and> no_failure ok_cert_env example_wrapper
   \<and> pcs (fc_run ok_cert_env example_wrapper two_calls racing later_start)
       = [FC_Done (FcOk second_keypair), FC_Done (FcOk second_keypair)]
   \<and> count_list (signOps later_start) ''example.test'' = 1
   \<and> count_list (signOps (fc_run ok_cert_env example_wrapper two_calls racing later_start))
        ''example.test'' = 2
   \<and> fc_moves ok_cert_env example_wrapper two_calls racing later_start \<le> 14"
proof -
  let ?s = "fc_run ok_cert_env example_wrapper two_calls racing later_start"
  have t: "ticks_ok racing" by (simp add: racing_def)
  note e = racing_within
  have nf: "no_failure ok_cert_env example_wrapper"
    by (simp add: no_failure_def ok_cert_env_def example_wrapper_def)
  have len: "length two_calls = 2" by (simp add: two_calls_def)
  have q: "\<forall>k < length two_calls. \<not> can_step two_calls ?s k"
    by (auto simp add: can_step_def racing_state len less_Suc_eq numeral_2_eq_2)
  have h: "\<exists>i < length two_calls. two_calls ! i = ''example.test''"
    by (intro exI [of _ 0]) (simp add: two_calls_def)
  have n0: "count_list (signOps later_start) ''example.test'' = 1"
    by (simp add: later_start_def)
  have "fc_moves ok_cert_env example_wrapper two_calls racing later_start \<le> 7 * length two_calls"
    and "count_list (signOps ?s) ''example.test''
           + (if live_entry ''example.test'' later_start then 1 else 0)
       = count_list (signOps later_start) ''example.test'' + 1"
    using fake_cert_memoized [OF later_start_ok t e refl] nf q h
    by blast+
  then show ?thesis using later_start_ok t e nf racing_state(1) n0 later_start_window(1)
    by (simp add: len)
qed

subsection \<open>The acknowledgement and the TLS session\<close>

lemma takeWhile_snoc_other:
  "y \<notin> set (takeWhile P w) \<Longrightarrow> y \<noteq> z \<Longrightarrow> y \<notin> set (takeWhile P (w @ [z]))"
  by (induction w) auto

lemma takeWhile_past:
  "a \<in> set w \<Longrightarrow> takeWhile (\<lambda>x. x \<noteq> a) (w @ ys) = takeWhile (\<lambda>x. x \<noteq> a) w"
  by (induction w) auto

lemma ack_precedes_snoc_plain:
  "ack_precedes w \<Longrightarrow> ack_precedes (w @ [Plain b])"
  unfolding ack_precedes_def by (rule takeWhile_snoc_other) simp_all

lemma ack_precedes_snoc_record:
  "ack_precedes w \<Longrightarrow> Plain intercept_ack \<in> set w \<Longrightarrow> ack_precedes (w @ [TLSRecord])"
  unfolding ack_precedes_def by (simp add: takeWhile_past del: takeWhile_append)

lemma interceptor_writes_only_ack: "writes_only_ack (fst (InterceptHTTPs env req))"
  by (simp add: InterceptHTTPs_def respBadGateway_def Let_def split: option.splits)

lemma tunnel_inv_init: "tunnel_inv (tunnel_init env req)"
  by (simp add: tunnel_inv_def tunnel_init_def ack_precedes_def intercept_ack_sent_def
      interceptor_writes_only_ack)

lemma tunnel_inv_handler_effect:
  assumes "tunnel_inv (s\<lparr>todo := e # es\<rparr>)"
  shows "tunnel_inv (handler_effect e (s\<lparr>todo := es\<rparr>))"
  using assms
  by (cases e)
     (auto simp add: tunnel_inv_def intercept_ack_sent_def ack_precedes_snoc_plain)

lemma tunnel_inv_step:
  assumes "tunnel_inv s"
  shows "tunnel_inv (tunnel_step True a s)"
proof (cases a)
  case Handler
  show ?thesis
  proof (cases "todo s")
    case Nil
    then show ?thesis using assms Handler by simp
  next
    case (Cons e es)
    then have "s\<lparr>todo := e # es\<rparr> = s" by simp
    then have "tunnel_inv (handler_effect e (s\<lparr>todo := es\<rparr>))"
      using tunnel_inv_handler_effect [where s = s and e = e and es = es] assms by simp
    then show ?thesis using Handler Cons by simp
  qed
next
  case Server
  then show ?thesis
    using assms
    by (cases "serving s")
       (auto simp add: tunnel_inv_def intercept_ack_sent_def ack_precedes_snoc_record)
next
  case ClientHello
  then show ?thesis using assms by (auto simp add: tunnel_inv_def intercept_ack_sent_def)
qed

lemma tunnel_inv_run: "tunnel_inv s \<Longrightarrow> tunnel_inv (tunnel_run True sch s)"
  by (induction sch arbitrary: s) (simp_all add: tunnel_inv_step)

lemma ack_pending_step:
  assumes "has_ack_write (todo s) \<or> intercept_ack_sent s"
  shows "has_ack_write (todo (tunnel_step polite a s)) \<or> intercept_ack_sent (tunnel_step polite a s)"
proof (cases a)
  case Handler
  show ?thesis
  proof (cases "todo s")
    case Nil
    then show ?thesis using assms Handler by simp
  next
    case (Cons e es)
    then show ?thesis using assms Handler
      by (cases e) (auto simp add: intercept_ack_sent_def)
  qed
next
  case Server
  then show ?thesis using assms
    by (cases "serving s") (auto simp add: intercept_ack_sent_def)
next
  case ClientHello
  then show ?thesis using assms by (auto simp add: intercept_ack_sent_def)
qed

lemma ack_pending_run:
  "has_ack_write (todo s) \<or> intercept_ack_sent s \<Longrightarrow>
   has_ack_write (todo (tunnel_run polite sch s)) \<or> intercept_ack_sent (tunnel_run polite sch s)"
  by (induction sch arbitrary: s) (simp_all add: ack_pending_step del: tunnel_step.simps)

text \<open>
  C1, as amended. With a client that sends its ClientHello only after it has received
  the acknowledgement, under every interleaving of the handler, the server goroutine and
  the client, \<^verbatim>\<open>HTTP/1.1 200 OK\<close> followed by two line ends is on the client socket before
  any TLS record; when interception succeeds it is there once the handler is done; and
  in program order the handler starts the server goroutine and then writes the
  acknowledgement, which is its only write to the socket.
\<close>

theorem ack_before_tls:
  "ack_precedes (toClient (tunnel_run True sch (tunnel_init env req)))
   \<and> (certErr env = None \<and> iHijackErr env = None
        \<and> todo (tunnel_run True sch (tunnel_init env req)) = []
      \<longrightarrow> Plain intercept_ack \<in> set (toClient (tunnel_run True sch (tunnel_init env req))))
   \<and> (certErr env = None \<and> iHijackErr env = None
      \<longrightarrow> (\<exists>pre. fst (InterceptHTTPs env req) = pre @ [GoServe, ConnInWrite intercept_ack]
              \<and> filter is_ConnInWrite pre = []))"
proof -
  have "tunnel_inv (tunnel_run True sch (tunnel_init env req))"
    by (rule tunnel_inv_run [OF tunnel_inv_init])
  then have a: "ack_precedes (toClient (tunnel_run True sch (tunnel_init env req)))"
    by (simp add: tunnel_inv_def)
  have b: "Plain intercept_ack \<in> set (toClient (tunnel_run True sch (tunnel_init env req)))"
    if ok: "certErr env = None" "iHijackErr env = None"
      and fin: "todo (tunnel_run True sch (tunnel_init env req)) = []"
  proof -
    have "has_ack_write (todo (tunnel_init env req))"
      using ok by (simp add: tunnel_init_def InterceptHTTPs_def)
    then have "has_ack_write (todo (tunnel_run True sch (tunnel_init env req)))
        \<or> intercept_ack_sent (tunnel_run True sch (tunnel_init env req))"
      by (intro ack_pending_run) simp
    then show ?thesis using fin by (simp add: intercept_ack_sent_def)
  qed
  have c: "\<exists>pre. fst (InterceptHTTPs env req) = pre @ [GoServe, ConnInWrite intercept_ack]
              \<and> filter is_ConnInWrite pre = []"
    if ok: "certErr env = None" "iHijackErr env = None"
  proof -
    have "fst (InterceptHTTPs env req)
        = [CallFakeCert (split_first (reqHost req)), Hijack, TLSServer]
          @ [GoServe, ConnInWrite intercept_ack]"
      using ok by (simp add: InterceptHTTPs_def)
    then show ?thesis by (intro exI [of _ "[CallFakeCert (split_first (reqHost req)), Hijack, TLSServer]"]) simp
  qed
  show ?thesis using a b c by blast
qed

text \<open>
  C1 as the specification states it fails: the server goroutine is started before the acknowledgement is
  written, so with a client whose ClientHello arrives in between, the server's first TLS
  record can reach the socket before the acknowledgement.
\<close>

theorem ack_before_tls_counterexample:
  "toClient (tunnel_run False eager_client (tunnel_init ok_intercept_env example_connect))
     = [TLSRecord, Plain intercept_ack]
   \<and> \<not> ack_precedes (toClient (tunnel_run False eager_client
          (tunnel_init ok_intercept_env example_connect)))"
  by (simp add: eager_client_def tunnel_init_def InterceptHTTPs_def ok_intercept_env_def
      intercept_ack_sent_def ack_precedes_def)

theorem ack_before_tls_witness:
  "certErr ok_intercept_env = None \<and> iHijackErr ok_intercept_env = None
   \<and> todo (tunnel_run True polite_client (tunnel_init ok_intercept_env example_connect)) = []
   \<and> toClient (tunnel_run True polite_client (tunnel_init ok_intercept_env example_connect))
       = [Plain intercept_ack, TLSRecord]
   \<and> ack_precedes (toClient (tunnel_run True polite_client
        (tunnel_init ok_intercept_env example_connect)))"
  using ack_before_tls [of polite_client ok_intercept_env example_connect]
  by (simp add: polite_client_def tunnel_init_def InterceptHTTPs_def ok_intercept_env_def
      intercept_ack_sent_def)

end
